theory Spec2Isabelle
  imports Main
begin

section \<open>Data model\<close>

text \<open>
  The only entity is the \<open>Contact\<close> row. \<open>LinkPrecedence\<close> is the enum of the
  database schema. Nullable columns are \<open>option\<close>s (\<open>None\<close> is \<open>null\<close>; an
  \<open>undefined\<close> argument is turned into \<open>null\<close> by \<open>??\<close> before it is stored, so
  both are \<open>None\<close>). Timestamps are the millisecond counts that \<open>getTime()\<close> reads.
\<close>

datatype LinkPrecedence = primary | secondary

record Contact =
  id_contact :: nat
  email :: "string option"
  phoneNumber :: "string option"
  linkedId :: "nat option"
  linkPrecedence :: LinkPrecedence
  createdAt :: int
  deletedAt :: "int option"

text \<open>
  The table inside one transaction: the rows in insertion order and the next value of
  the id sequence.
\<close>

record store =
  rows :: "Contact list"
  nextId :: nat

record IdentifyResponse =
  primaryContactId :: nat
  emails :: "string list"
  phoneNumbers :: "string list"
  secondaryContactIds :: "nat list"

datatype error =
  AppError string nat
  | TypeError
  | RecordNotFound

text \<open>JavaScript truthiness of an optional string, and of an optional number.\<close>

definition truthy :: "string option \<Rightarrow> bool" where
  "truthy s = (case s of None \<Rightarrow> False | Some v \<Rightarrow> v \<noteq> [])"

definition truthy_id :: "nat option \<Rightarrow> bool" where
  "truthy_id n = (case n of None \<Rightarrow> False | Some v \<Rightarrow> v \<noteq> 0)"

definition live :: "Contact \<Rightarrow> bool" where
  "live c = (deletedAt c = None)"

section \<open>ContactRepository\<close>

text \<open>
  \<open>findMany\<close> with \<open>orderBy: { createdAt: 'asc' }\<close> is a stable sort of the
  selected rows by \<open>createdAt\<close>.
\<close>

definition findMatchingContacts ::
    "store \<Rightarrow> string option \<Rightarrow> string option \<Rightarrow> Contact list" where
  "findMatchingContacts tx em ph =
     (let conditions =
            (if truthy em then [\<lambda>c. email c = em] else []) @
            (if truthy ph then [\<lambda>c. phoneNumber c = ph] else [])
      in if length conditions = 0 then []
         else sort_key createdAt
                (filter (\<lambda>c. list_ex (\<lambda>p. p c) conditions \<and> deletedAt c = None) (rows tx)))"

definition findContactsByPrimaryId :: "store \<Rightarrow> nat \<Rightarrow> Contact list" where
  "findContactsByPrimaryId tx primaryId =
     sort_key createdAt
       (filter (\<lambda>c. linkedId c = Some primaryId \<and> deletedAt c = None) (rows tx))"

definition findContactById :: "store \<Rightarrow> nat \<Rightarrow> Contact option" where
  "findContactById tx i = find (\<lambda>c. id_contact c = i) (rows tx)"

record create_data =
  d_email :: "string option"
  d_phoneNumber :: "string option"
  d_linkedId :: "nat option"
  d_linkPrecedence :: LinkPrecedence

text \<open>
  Modelled from the spec: the database schema is not part of the sources. The spec's store
  contract says \<open>createContact\<close> returns a contact with a ``server-assigned id and
  createdAt'' and that ids are unique and store-assigned: the new row takes the next value
  of the id sequence and the transaction's clock reading \<open>now\<close>, and is not deleted.
\<close>

definition createContact :: "store \<Rightarrow> int \<Rightarrow> create_data \<Rightarrow> Contact \<times> store" where
  "createContact tx now data =
     (let c = \<lparr> id_contact = nextId tx,
                email = d_email data,
                phoneNumber = d_phoneNumber data,
                linkedId = d_linkedId data,
                linkPrecedence = d_linkPrecedence data,
                createdAt = now,
                deletedAt = None \<rparr>
      in (c, tx\<lparr> rows := rows tx @ [c], nextId := Suc (nextId tx) \<rparr>))"

text \<open>
  A partial update: a field that is \<open>None\<close> in \<open>update_data\<close> is left as it is.
  \<open>update\<close> with a \<open>where\<close> that selects no row throws.
\<close>

record update_data =
  u_linkedId :: "nat option option"
  u_linkPrecedence :: "LinkPrecedence option"

definition apply_update :: "update_data \<Rightarrow> Contact \<Rightarrow> Contact" where
  "apply_update data c =
     c\<lparr> linkedId := (case u_linkedId data of None \<Rightarrow> linkedId c | Some l \<Rightarrow> l),
        linkPrecedence :=
          (case u_linkPrecedence data of None \<Rightarrow> linkPrecedence c | Some p \<Rightarrow> p) \<rparr>"

definition updateContact :: "store \<Rightarrow> nat \<Rightarrow> update_data \<Rightarrow> error + store" where
  "updateContact tx i data =
     (if list_ex (\<lambda>c. id_contact c = i) (rows tx)
      then Inr (tx\<lparr> rows := map (\<lambda>c. if id_contact c = i then apply_update data c else c)
                               (rows tx) \<rparr>)
      else Inl RecordNotFound)"

section \<open>ContactService\<close>

subsection \<open>The Map and the Set of collectFullCluster\<close>

text \<open>
  A JavaScript \<open>Map\<close> keeps its keys in insertion order, and \<open>set\<close> on a key that is
  present replaces the value where it stands. A \<open>Set\<close> keeps insertion order as well.
\<close>

fun map_set :: "nat \<Rightarrow> Contact \<Rightarrow> (nat \<times> Contact) list \<Rightarrow> (nat \<times> Contact) list" where
  "map_set k v [] = [(k, v)]"
| "map_set k v ((k', v') # m) =
     (if k' = k then (k, v) # m else (k', v') # map_set k v m)"

definition map_has :: "nat \<Rightarrow> (nat \<times> Contact) list \<Rightarrow> bool" where
  "map_has k m = list_ex (\<lambda>kv. fst kv = k) m"

definition set_add :: "nat \<Rightarrow> nat list \<Rightarrow> nat list" where
  "set_add k s = (if k \<in> set s then s else s @ [k])"

fun set_all :: "Contact list \<Rightarrow> (nat \<times> Contact) list \<Rightarrow> (nat \<times> Contact) list" where
  "set_all [] m = m"
| "set_all (c # cs) m = set_all cs (map_set (id_contact c) c m)"

fun collect_primaryIds :: "Contact list \<Rightarrow> nat list \<Rightarrow> nat list" where
  "collect_primaryIds [] s = s"
| "collect_primaryIds (c # cs) s =
     collect_primaryIds cs
       (if linkPrecedence c = primary then set_add (id_contact c) s
        else if truthy_id (linkedId c) then set_add (the (linkedId c)) s
        else s)"

fun collect_loop :: "store \<Rightarrow> nat list \<Rightarrow> (nat \<times> Contact) list \<Rightarrow> (nat \<times> Contact) list" where
  "collect_loop tx [] m = m"
| "collect_loop tx (primaryId # ps) m =
     (let m1 = (if \<not> map_has primaryId m
                then (case findContactById tx primaryId of
                        None \<Rightarrow> m
                      | Some p \<Rightarrow> if deletedAt p = None then map_set (id_contact p) p m else m)
                else m);
          secondaries = findContactsByPrimaryId tx primaryId
      in collect_loop tx ps (set_all secondaries m1))"

definition collectFullCluster :: "store \<Rightarrow> Contact list \<Rightarrow> Contact list" where
  "collectFullCluster tx matchingContacts =
     (let contactMap = set_all matchingContacts [];
          primaryIds = collect_primaryIds matchingContacts [];
          contactMap' = collect_loop tx primaryIds contactMap
      in sort_key createdAt (map snd contactMap'))"

subsection \<open>resolvePrimary\<close>

fun relink_loop :: "store \<Rightarrow> nat \<Rightarrow> Contact list \<Rightarrow> error + store" where
  "relink_loop tx oldest [] = Inr tx"
| "relink_loop tx oldest (s # ss) =
     (case updateContact tx (id_contact s) \<lparr> u_linkedId = Some (Some oldest),
                                             u_linkPrecedence = None \<rparr> of
        Inl e \<Rightarrow> Inl e
      | Inr tx' \<Rightarrow> relink_loop tx' oldest ss)"

fun demote_loop :: "store \<Rightarrow> nat \<Rightarrow> Contact list \<Rightarrow> error + store" where
  "demote_loop tx oldest [] = Inr tx"
| "demote_loop tx oldest (newerPrimary # ps) =
     (case updateContact tx (id_contact newerPrimary)
             \<lparr> u_linkedId = Some (Some oldest), u_linkPrecedence = Some secondary \<rparr> of
        Inl e \<Rightarrow> Inl e
      | Inr tx1 \<Rightarrow>
          (case relink_loop tx1 oldest (findContactsByPrimaryId tx1 (id_contact newerPrimary)) of
             Inl e \<Rightarrow> Inl e
           | Inr tx2 \<Rightarrow> demote_loop tx2 oldest ps))"

text \<open>
  \<open>primaries[0]\<close> of an empty array is \<open>undefined\<close>: the result is \<open>None\<close> then.
\<close>

definition resolvePrimary :: "store \<Rightarrow> Contact list \<Rightarrow> error + (Contact option \<times> store)" where
  "resolvePrimary tx contacts =
     (let primaries = filter (\<lambda>c. linkPrecedence c = primary) contacts
      in if length primaries \<le> 1
         then Inr (case primaries of [] \<Rightarrow> None | p # _ \<Rightarrow> Some p, tx)
         else (case sort_key createdAt primaries of
                 [] \<Rightarrow> Inr (None, tx)
               | oldestPrimary # newer \<Rightarrow>
                   (case demote_loop tx (id_contact oldestPrimary) newer of
                      Inl e \<Rightarrow> Inl e
                    | Inr tx' \<Rightarrow> Inr (Some oldestPrimary, tx'))))"

definition refreshCluster :: "store \<Rightarrow> Contact \<Rightarrow> Contact list" where
  "refreshCluster tx p = findContactsByPrimaryId tx (id_contact p)"

subsection \<open>createSecondaryIfNeeded\<close>

definition comboExists :: "Contact list \<Rightarrow> string option \<Rightarrow> string option \<Rightarrow> bool" where
  "comboExists allContacts em ph =
     list_ex (\<lambda>c. (\<not> truthy em \<or> email c = em) \<and> (\<not> truthy ph \<or> phoneNumber c = ph))
       allContacts"

definition hasNewInfo :: "Contact list \<Rightarrow> string option \<Rightarrow> string option \<Rightarrow> bool" where
  "hasNewInfo allContacts em ph =
     ((truthy em \<and> \<not> list_ex (\<lambda>c. email c = em) allContacts) \<or>
      (truthy ph \<and> \<not> list_ex (\<lambda>c. phoneNumber c = ph) allContacts))"

definition createSecondaryIfNeeded ::
    "store \<Rightarrow> int \<Rightarrow> Contact list \<Rightarrow> Contact \<Rightarrow> string option \<Rightarrow> string option \<Rightarrow> store" where
  "createSecondaryIfNeeded tx now cluster p em ph =
     (let allContacts = p # cluster
      in if comboExists allContacts em ph then tx
         else if hasNewInfo allContacts em ph \<or>
                 (\<not> comboExists allContacts em ph \<and> (truthy em \<or> truthy ph))
              then snd (createContact tx now
                          \<lparr> d_email = em, d_phoneNumber = ph,
                            d_linkedId = Some (id_contact p),
                            d_linkPrecedence = secondary \<rparr>)
              else tx)"

subsection \<open>buildResponse\<close>

definition push_new :: "string option \<Rightarrow> string list \<Rightarrow> string list" where
  "push_new v acc = (if truthy v \<and> the v \<notin> set acc then acc @ [the v] else acc)"

fun response_loop ::
    "Contact list \<Rightarrow> string list \<times> string list \<times> nat list \<Rightarrow> string list \<times> string list \<times> nat list"
  where
  "response_loop [] acc = acc"
| "response_loop (s # ss) (es, ps, ids) =
     response_loop ss (push_new (email s) es, push_new (phoneNumber s) ps, ids @ [id_contact s])"

definition buildResponse :: "Contact \<Rightarrow> Contact list \<Rightarrow> IdentifyResponse" where
  "buildResponse p secondaries =
     (let es = (if truthy (email p) then [the (email p)] else []);
          ps = (if truthy (phoneNumber p) then [the (phoneNumber p)] else [])
      in case response_loop secondaries (es, ps, []) of
           (es', ps', ids) \<Rightarrow>
             \<lparr> primaryContactId = id_contact p, emails = es', phoneNumbers = ps',
               secondaryContactIds = ids \<rparr>)"

subsection \<open>identify\<close>

definition handleNoMatch ::
    "store \<Rightarrow> int \<Rightarrow> string option \<Rightarrow> string option \<Rightarrow> error + (IdentifyResponse \<times> store)" where
  "handleNoMatch tx now em ph =
     (case createContact tx now
             \<lparr> d_email = em, d_phoneNumber = ph, d_linkedId = None,
               d_linkPrecedence = primary \<rparr> of
        (newContact, tx') \<Rightarrow> Inr (buildResponse newContact [], tx'))"

text \<open>
  \<open>refreshCluster\<close> reads \<open>primary.id\<close>: when \<open>resolvePrimary\<close> returned
  \<open>undefined\<close> this is a \<open>TypeError\<close>.
\<close>

definition handleMatch ::
    "store \<Rightarrow> int \<Rightarrow> Contact list \<Rightarrow> string option \<Rightarrow> string option
       \<Rightarrow> error + (IdentifyResponse \<times> store)" where
  "handleMatch tx now matchingContacts em ph =
     (let allContacts = collectFullCluster tx matchingContacts
      in case resolvePrimary tx allContacts of
           Inl e \<Rightarrow> Inl e
         | Inr (None, tx1) \<Rightarrow> Inl TypeError
         | Inr (Some p, tx1) \<Rightarrow>
             (let updatedCluster = refreshCluster tx1 p;
                  tx2 = createSecondaryIfNeeded tx1 now updatedCluster p em ph;
                  finalCluster = refreshCluster tx2 p
              in Inr (buildResponse p finalCluster, tx2)))"

text \<open>
  The whole call runs in one transaction: a result \<open>Inl e\<close> is a rolled back
  transaction, which leaves the store as it was before the call.
\<close>

definition identify ::
    "store \<Rightarrow> int \<Rightarrow> string option \<Rightarrow> string option \<Rightarrow> error + (IdentifyResponse \<times> store)" where
  "identify tx now em ph =
     (let matchingContacts = findMatchingContacts tx em ph
      in if length matchingContacts = 0 then handleNoMatch tx now em ph
         else handleMatch tx now matchingContacts em ph)"

section \<open>ContactController and errorHandler\<close>

text \<open>
  The request body carries two optional strings. A \<open>char\<close> stands for a code unit
  below 256 (Latin-1). \<open>trim\<close> removes the white space of both ends;
  \<open>toLowerCase\<close> maps the upper-case letters of that range (A to Z, and the
  accented letters 192 to 222 except the multiplication sign 215) to their lower-case
  forms, 32 above, and leaves every other code unit as it is.
\<close>

record IdentifyRequest =
  r_email :: "string option"
  r_phoneNumber :: "string option"

definition is_space :: "char \<Rightarrow> bool" where
  "is_space ch = (of_char ch \<in> {9 :: nat, 10, 11, 12, 13, 32, 160})"

definition trim :: "string \<Rightarrow> string" where
  "trim s = rev (dropWhile is_space (rev (dropWhile is_space s)))"

definition lower_char :: "char \<Rightarrow> char" where
  "lower_char ch =
     (let n = (of_char ch :: nat)
      in if (65 \<le> n \<and> n \<le> 90) \<or> (192 \<le> n \<and> n \<le> 222 \<and> n \<noteq> 215)
         then char_of (n + 32) else ch)"

definition toLowerCase :: "string \<Rightarrow> string" where
  "toLowerCase s = map lower_char s"

text \<open>\<open>x || null\<close> on an optional string.\<close>

definition or_null :: "string option \<Rightarrow> string option" where
  "or_null s = (if truthy s then s else None)"

datatype body = Ok IdentifyResponse | Err string

record HttpResponse =
  status :: nat
  json :: body

definition errorHandler :: "error \<Rightarrow> HttpResponse" where
  "errorHandler err =
     (case err of
        AppError message statusCode \<Rightarrow> \<lparr> status = statusCode, json = Err message \<rparr>
      | _ \<Rightarrow> \<lparr> status = 500, json = Err ''Internal server error'' \<rparr>)"

text \<open>
  The controller returns the HTTP response and the store after the request: the store
  of a failed call is the one before it.
\<close>

definition controller_identify :: "store \<Rightarrow> int \<Rightarrow> IdentifyRequest \<Rightarrow> HttpResponse \<times> store" where
  "controller_identify tx now req =
     (let em = r_email req; ph = r_phoneNumber req
      in if \<not> truthy em \<and> \<not> truthy ph
         then (errorHandler
                 (AppError ''At least one of email or phoneNumber must be provided'' 400), tx)
         else
           (let em' = (if truthy em then Some (toLowerCase (trim (the em))) else em);
                ph' = (if truthy ph then Some (trim (the ph)) else ph)
            in case identify tx now (or_null em') (or_null ph') of
                 Inl e \<Rightarrow> (errorHandler e, tx)
               | Inr (result, tx') \<Rightarrow> (\<lparr> status = 200, json = Ok result \<rparr>, tx')))"

section \<open>Well-formed stores\<close>

text \<open>
  What the database itself guarantees: ids are unique, positive and below the next
  value of the sequence.
\<close>

definition db_ok :: "store \<Rightarrow> bool" where
  "db_ok tx =
     (distinct (map id_contact (rows tx)) \<and> 0 < nextId tx \<and>
      list_all (\<lambda>c. 0 < id_contact c \<and> id_contact c < nextId tx) (rows tx))"

text \<open>A primary has no \<open>linkedId\<close>.\<close>

definition primaries_unlinked :: "store \<Rightarrow> bool" where
  "primaries_unlinked tx =
     list_all (\<lambda>c. linkPrecedence c = primary \<longrightarrow> linkedId c = None) (rows tx)"

text \<open>
  The star topology, on the rows the queries can see: every secondary that is not
  deleted points to a primary that satisfies \<open>ok\<close>. With \<open>ok\<close> always true this is
  \<open>star\<close>; \<open>star_live\<close> asks in addition that the primary is not deleted.
  \<open>star_all\<close> is the same property asked of every secondary, deleted or not.
\<close>

definition star_on :: "(Contact \<Rightarrow> bool) \<Rightarrow> store \<Rightarrow> bool" where
  "star_on ok tx =
     list_all (\<lambda>c. linkPrecedence c = secondary \<and> live c \<longrightarrow>
                  list_ex (\<lambda>p. linkedId c = Some (id_contact p) \<and>
                               linkPrecedence p = primary \<and> ok p) (rows tx))
       (rows tx)"

definition star :: "store \<Rightarrow> bool" where
  "star tx = star_on (\<lambda>p. True) tx"

definition star_live :: "store \<Rightarrow> bool" where
  "star_live tx = star_on live tx"

definition star_all :: "store \<Rightarrow> bool" where
  "star_all tx =
     list_all (\<lambda>c. linkPrecedence c = secondary \<longrightarrow>
                  list_ex (\<lambda>p. linkedId c = Some (id_contact p) \<and> linkPrecedence p = primary)
                    (rows tx))
       (rows tx)"

definition wf_store :: "store \<Rightarrow> bool" where
  "wf_store tx = (db_ok tx \<and> primaries_unlinked tx \<and> star tx)"

section \<open>Notions used to state the properties\<close>

text \<open>
  What a merge does to one row, in closed form: the rows whose id is in \<open>D\<close> (the newer
  primaries) are demoted and linked to the oldest primary; the rows that are not deleted
  and point to one of them are re-pointed; every other row is left as it is.
\<close>

definition demote_fn :: "nat \<Rightarrow> nat set \<Rightarrow> Contact \<Rightarrow> Contact" where
  "demote_fn oldest D c =
     (if id_contact c \<in> D then c\<lparr> linkedId := Some oldest, linkPrecedence := secondary \<rparr>
      else if live c \<and> (\<exists>n\<in>D. linkedId c = Some n) then c\<lparr> linkedId := Some oldest \<rparr>
      else c)"

definition merged :: "store \<Rightarrow> Contact \<Rightarrow> Contact list \<Rightarrow> store" where
  "merged tx p newer =
     tx\<lparr> rows := map (demote_fn (id_contact p) (id_contact ` set newer)) (rows tx) \<rparr>"

text \<open>The rows that \<open>identify\<close> creates.\<close>

definition new_primary :: "store \<Rightarrow> int \<Rightarrow> string option \<Rightarrow> string option \<Rightarrow> Contact" where
  "new_primary tx now em ph =
     \<lparr> id_contact = nextId tx, email = em, phoneNumber = ph,
       linkedId = None, linkPrecedence = primary,
       createdAt = now, deletedAt = None \<rparr>"

definition new_secondary ::
    "store \<Rightarrow> int \<Rightarrow> Contact \<Rightarrow> string option \<Rightarrow> string option \<Rightarrow> Contact" where
  "new_secondary tx now p em ph =
     \<lparr> id_contact = nextId tx, email = em, phoneNumber = ph,
       linkedId = Some (id_contact p), linkPrecedence = secondary,
       createdAt = now, deletedAt = None \<rparr>"

text \<open>
  The contents of the Map of \<open>collectFullCluster\<close>: every key is the id of its value,
  and every value is a row of the store. \<open>primaryIds_of\<close> is the Set of primary ids
  that the matched contacts give.
\<close>

definition rowmap :: "store \<Rightarrow> (nat \<times> Contact) list \<Rightarrow> bool" where
  "rowmap tx m =
     (distinct (map fst m) \<and>
      (\<forall>kv \<in> set m. fst kv = id_contact (snd kv) \<and> snd kv \<in> set (rows tx)))"

definition primaryIds_of :: "Contact list \<Rightarrow> nat set" where
  "primaryIds_of M =
     {id_contact c |c. c \<in> set M \<and> linkPrecedence c = primary} \<union>
     {q. \<exists>c \<in> set M. linkPrecedence c \<noteq> primary \<and> linkedId c = Some q \<and> q \<noteq> 0}"

text \<open>
  The response lists, as the spec words them: the values that are present (truthy),
  each kept where it is seen first.
\<close>

definition present_values :: "string option list \<Rightarrow> string list" where
  "present_values vs = map the (filter truthy vs)"

definition first_seen :: "'a list \<Rightarrow> 'a list" where
  "first_seen xs = rev (remdups (rev xs))"

text \<open>
  The cluster of the contact with id \<open>q\<close>: that contact and every row that points to it.
\<close>

definition cluster_of :: "store \<Rightarrow> nat \<Rightarrow> Contact list" where
  "cluster_of tx q = filter (\<lambda>c. id_contact c = q \<or> linkedId c = Some q) (rows tx)"

text \<open>
  A sequence of calls, each in its own transaction: a call that fails is rolled back and
  leaves the store as it was.
\<close>

fun run_calls :: "store \<Rightarrow> (int \<times> string option \<times> string option) list \<Rightarrow> store" where
  "run_calls tx [] = tx"
| "run_calls tx ((now, em, ph) # calls) =
     (case identify tx now em ph of
        Inl e \<Rightarrow> run_calls tx calls
      | Inr (r, tx') \<Rightarrow> run_calls tx' calls)"

section \<open>Example stores\<close>

definition contact_a :: Contact where
  "contact_a = \<lparr> id_contact = 1, email = Some ''a@x.com'', phoneNumber = Some ''111'',
                  linkedId = None, linkPrecedence = primary, createdAt = 10,
                  deletedAt = None \<rparr>"

definition contact_b :: Contact where
  "contact_b = \<lparr> id_contact = 2, email = Some ''b@x.com'', phoneNumber = Some ''222'',
                  linkedId = None, linkPrecedence = primary, createdAt = 20,
                  deletedAt = None \<rparr>"

definition contact_c :: Contact where
  "contact_c = \<lparr> id_contact = 3, email = Some ''c@x.com'', phoneNumber = Some ''222'',
                  linkedId = Some 2, linkPrecedence = secondary, createdAt = 30,
                  deletedAt = None \<rparr>"

definition contact_d :: Contact where
  "contact_d = \<lparr> id_contact = 4, email = Some ''d@x.com'', phoneNumber = Some ''444'',
                  linkedId = Some 2, linkPrecedence = secondary, createdAt = 40,
                  deletedAt = Some 50 \<rparr>"

definition contact_e :: Contact where
  "contact_e = \<lparr> id_contact = 2, email = Some ''e@x.com'', phoneNumber = Some ''555'',
                  linkedId = Some 1, linkPrecedence = secondary, createdAt = 20,
                  deletedAt = None \<rparr>"

definition store_empty :: store where
  "store_empty = \<lparr> rows = [], nextId = 1 \<rparr>"

text \<open>One cluster: a primary and one secondary with another email and phone.\<close>

definition store_one_cluster :: store where
  "store_one_cluster = \<lparr> rows = [contact_a, contact_e], nextId = 3 \<rparr>"

text \<open>Two independent clusters; the second has a secondary.\<close>

definition store_two_clusters :: store where
  "store_two_clusters = \<lparr> rows = [contact_a, contact_b, contact_c], nextId = 4 \<rparr>"

text \<open>The same, with a soft-deleted secondary under the second primary.\<close>

definition store_with_deleted :: store where
  "store_with_deleted = \<lparr> rows = [contact_a, contact_b, contact_c, contact_d], nextId = 5 \<rparr>"

text \<open>A secondary whose primary is soft-deleted.\<close>

definition contact_f :: Contact where
  "contact_f = \<lparr> id_contact = 1, email = Some ''f@x.com'', phoneNumber = Some ''666'',
                  linkedId = None, linkPrecedence = primary, createdAt = 10,
                  deletedAt = Some 15 \<rparr>"

definition contact_g :: Contact where
  "contact_g = \<lparr> id_contact = 2, email = Some ''g@x.com'', phoneNumber = Some ''777'',
                  linkedId = Some 1, linkPrecedence = secondary, createdAt = 20,
                  deletedAt = None \<rparr>"

definition store_orphan :: store where
  "store_orphan = \<lparr> rows = [contact_f, contact_g], nextId = 3 \<rparr>"

text \<open>
  The store and the response after \<open>identify\<close> with the email of \<open>contact_c\<close> and the
  phone of \<open>contact_a\<close> on \<open>store_two_clusters\<close>, at time 100.
\<close>

definition store_merged :: store where
  "store_merged =
     \<lparr> rows = [contact_a,
               contact_b\<lparr> linkedId := Some 1, linkPrecedence := secondary \<rparr>,
               contact_c\<lparr> linkedId := Some 1 \<rparr>,
               \<lparr> id_contact = 4, email = Some ''c@x.com'', phoneNumber = Some ''111'',
                 linkedId = Some 1, linkPrecedence = secondary, createdAt = 100,
                 deletedAt = None \<rparr>],
       nextId = 5 \<rparr>"

definition response_merged :: IdentifyResponse where
  "response_merged =
     \<lparr> primaryContactId = 1, emails = [''a@x.com'', ''b@x.com'', ''c@x.com''],
       phoneNumbers = [''111'', ''222''], secondaryContactIds = [2, 3, 4] \<rparr>"

section \<open>Basic facts\<close>

lemma findMatchingContacts_eq:
  "findMatchingContacts tx em ph =
     (if \<not> truthy em \<and> \<not> truthy ph then []
      else sort_key createdAt
             (filter (\<lambda>c. ((truthy em \<and> email c = em) \<or> (truthy ph \<and> phoneNumber c = ph)) \<and> live c)
                (rows tx)))"
  by (auto simp: findMatchingContacts_def live_def
           intro!: arg_cong[where f="sort_key createdAt"] filter_cong)

lemma buildResponse_Nil:
  "buildResponse p [] =
     \<lparr> primaryContactId = id_contact p,
       emails = (if truthy (email p) then [the (email p)] else []),
       phoneNumbers = (if truthy (phoneNumber p) then [the (phoneNumber p)] else []),
       secondaryContactIds = [] \<rparr>"
  by (simp add: buildResponse_def)

lemma identify_no_match_eq:
  assumes "findMatchingContacts tx em ph = []"
  shows "identify tx now em ph =
           Inr (\<lparr> primaryContactId = nextId tx,
                  emails = (if truthy em then [the em] else []),
                  phoneNumbers = (if truthy ph then [the ph] else []),
                  secondaryContactIds = [] \<rparr>,
                tx\<lparr> rows := rows tx @
                       [\<lparr> id_contact = nextId tx, email = em, phoneNumber = ph,
                          linkedId = None, linkPrecedence = primary,
                          createdAt = now, deletedAt = None \<rparr>],
                    nextId := Suc (nextId tx) \<rparr>)"
  using assms
  by (simp add: identify_def handleNoMatch_def createContact_def buildResponse_Nil Let_def)

lemma trim_spaces: "list_all is_space s \<Longrightarrow> trim s = []"
  by (auto simp: trim_def list_all_iff dest: set_dropWhileD)

section \<open>Closed form of the update loops\<close>

lemma demote_fn_fields [simp]:
  "id_contact (demote_fn oldest D c) = id_contact c"
  "email (demote_fn oldest D c) = email c"
  "phoneNumber (demote_fn oldest D c) = phoneNumber c"
  "createdAt (demote_fn oldest D c) = createdAt c"
  "deletedAt (demote_fn oldest D c) = deletedAt c"
  "live (demote_fn oldest D c) = live c"
  by (simp_all add: demote_fn_def live_def)

lemma demote_fn_empty [simp]: "demote_fn oldest {} c = c"
  by (simp add: demote_fn_def)

lemma store_rows_same [simp]: "tx\<lparr> rows := rows tx \<rparr> = tx"
  by simp

lemma updateContact_ok:
  "i \<in> id_contact ` set (rows tx) \<Longrightarrow>
   updateContact tx i d =
     Inr (tx\<lparr> rows := map (\<lambda>c. if id_contact c = i then apply_update d c else c) (rows tx) \<rparr>)"
  by (auto simp: updateContact_def list_ex_iff)

lemma relink_loop_closed:
  "id_contact ` set ss \<subseteq> id_contact ` set (rows tx) \<Longrightarrow>
   relink_loop tx oldest ss =
     Inr (tx\<lparr> rows := map (\<lambda>c. if id_contact c \<in> id_contact ` set ss
                                then c\<lparr> linkedId := Some oldest \<rparr> else c) (rows tx) \<rparr>)"
proof (induction ss arbitrary: tx)
  case Nil
  then show ?case by simp
next
  case (Cons s ss)
  let ?u = "\<lparr> u_linkedId = Some (Some oldest), u_linkPrecedence = None \<rparr>"
  let ?f = "\<lambda>c. if id_contact c = id_contact s then apply_update ?u c else c"
  let ?tx1 = "tx\<lparr> rows := map ?f (rows tx) \<rparr>"
  have u: "updateContact tx (id_contact s) ?u = Inr ?tx1"
    using Cons.prems by (intro updateContact_ok) auto
  have "map id_contact (rows ?tx1) = map id_contact (rows tx)"
    by (simp add: apply_update_def)
  from arg_cong[OF this, of set]
  have ids: "id_contact ` set (rows ?tx1) = id_contact ` set (rows tx)"
    by (simp only: set_map)
  have "relink_loop ?tx1 oldest ss =
          Inr (?tx1\<lparr> rows := map (\<lambda>c. if id_contact c \<in> id_contact ` set ss
                                then c\<lparr> linkedId := Some oldest \<rparr> else c) (rows ?tx1) \<rparr>)"
  proof (rule Cons.IH)
    show "id_contact ` set ss \<subseteq> id_contact ` set (rows ?tx1)"
      using Cons.prems unfolding ids by auto
  qed
  then show ?case
    using u by (auto simp: apply_update_def)
qed

lemma distinct_id_eq:
  "distinct (map id_contact xs) \<Longrightarrow> a \<in> set xs \<Longrightarrow> b \<in> set xs \<Longrightarrow>
   id_contact a = id_contact b \<Longrightarrow> a = b"
  by (meson distinct_map inj_on_def)

lemma set_findContactsByPrimaryId [simp]:
  "set (findContactsByPrimaryId tx q) = {c \<in> set (rows tx). linkedId c = Some q \<and> live c}"
  by (auto simp: findContactsByPrimaryId_def live_def)

lemma demote_step:
  assumes d: "distinct (map id_contact (rows tx))"
    and n: "n \<in> id_contact ` set (rows tx)"
    and ne: "n \<noteq> oldest"
  shows "\<exists>tx1. updateContact tx n \<lparr> u_linkedId = Some (Some oldest),
                                     u_linkPrecedence = Some secondary \<rparr> = Inr tx1
           \<and> relink_loop tx1 oldest (findContactsByPrimaryId tx1 n) =
               Inr (tx\<lparr> rows := map (demote_fn oldest {n}) (rows tx) \<rparr>)"
proof -
  let ?u = "\<lparr> u_linkedId = Some (Some oldest), u_linkPrecedence = Some secondary \<rparr>"
  let ?f = "\<lambda>c. if id_contact c = n then apply_update ?u c else c"
  let ?tx1 = "tx\<lparr> rows := map ?f (rows tx) \<rparr>"
  let ?S = "id_contact ` set (findContactsByPrimaryId ?tx1 n)"
  have u: "updateContact tx n ?u = Inr ?tx1"
    using n by (rule updateContact_ok)
  have S: "?S = {id_contact c |c. c \<in> set (rows tx) \<and> id_contact c \<noteq> n
                                   \<and> linkedId c = Some n \<and> live c}"
    using ne by (auto simp: apply_update_def live_def image_iff)
  have sub: "?S \<subseteq> id_contact ` set (rows ?tx1)"
    by auto
  have r: "relink_loop ?tx1 oldest (findContactsByPrimaryId ?tx1 n) =
             Inr (?tx1\<lparr> rows := map (\<lambda>c. if id_contact c \<in> ?S
                                then c\<lparr> linkedId := Some oldest \<rparr> else c) (rows ?tx1) \<rparr>)"
    using sub by (rule relink_loop_closed)
  have pt: "(if id_contact (?f c) \<in> ?S then (?f c)\<lparr> linkedId := Some oldest \<rparr> else ?f c)
              = demote_fn oldest {n} c" if c: "c \<in> set (rows tx)" for c
  proof (cases "id_contact c = n")
    case True
    then have "id_contact (?f c) \<notin> ?S"
      unfolding S by (auto simp: apply_update_def)
    then show ?thesis using True by (simp add: demote_fn_def apply_update_def)
  next
    case False
    have "id_contact c \<in> ?S \<longleftrightarrow> linkedId c = Some n \<and> live c"
      unfolding S using False c distinct_id_eq[OF d] by auto
    then show ?thesis using False by (simp add: demote_fn_def)
  qed
  have "map (\<lambda>c. if id_contact c \<in> ?S then c\<lparr> linkedId := Some oldest \<rparr> else c) (rows ?tx1)
          = map (demote_fn oldest {n}) (rows tx)"
    using pt by (simp add: o_def)
  then show ?thesis using u r by simp
qed

lemma demote_fn_compose:
  assumes "n \<notin> D" "oldest \<notin> D" "oldest \<noteq> n"
  shows "demote_fn oldest D (demote_fn oldest {n} c) = demote_fn oldest (insert n D) c"
  using assms by (auto simp: demote_fn_def live_def)

lemma demote_loop_closed:
  "distinct (map id_contact (rows tx)) \<Longrightarrow>
   id_contact ` set ns \<subseteq> id_contact ` set (rows tx) \<Longrightarrow>
   oldest \<notin> id_contact ` set ns \<Longrightarrow>
   distinct (map id_contact ns) \<Longrightarrow>
   demote_loop tx oldest ns =
     Inr (tx\<lparr> rows := map (demote_fn oldest (id_contact ` set ns)) (rows tx) \<rparr>)"
proof (induction ns arbitrary: tx)
  case Nil
  then show ?case by simp
next
  case (Cons n ns)
  let ?tx2 = "tx\<lparr> rows := map (demote_fn oldest {id_contact n}) (rows tx) \<rparr>"
  obtain tx1 where
    u: "updateContact tx (id_contact n) \<lparr> u_linkedId = Some (Some oldest),
                                     u_linkPrecedence = Some secondary \<rparr> = Inr tx1"
    and r: "relink_loop tx1 oldest (findContactsByPrimaryId tx1 (id_contact n)) = Inr ?tx2"
    using demote_step[of tx "id_contact n" oldest] Cons.prems by auto
  have ids: "map id_contact (rows ?tx2) = map id_contact (rows tx)"
    by (simp add: o_def)
  have "demote_loop ?tx2 oldest ns =
     Inr (?tx2\<lparr> rows := map (demote_fn oldest (id_contact ` set ns)) (rows ?tx2) \<rparr>)"
  proof (rule Cons.IH)
    show "distinct (map id_contact (rows ?tx2))" using Cons.prems(1) by (simp only: ids)
    from arg_cong[OF ids, of set]
    have "id_contact ` set (rows ?tx2) = id_contact ` set (rows tx)"
      by (simp only: set_map)
    then show "id_contact ` set ns \<subseteq> id_contact ` set (rows ?tx2)"
      using Cons.prems(2) by auto
    show "oldest \<notin> id_contact ` set ns" using Cons.prems(3) by auto
    show "distinct (map id_contact ns)" using Cons.prems(4) by simp
  qed
  moreover have "demote_fn oldest (id_contact ` set ns) (demote_fn oldest {id_contact n} c)
                   = demote_fn oldest (id_contact ` set (n # ns)) c" for c
    using Cons.prems(3,4) by (subst demote_fn_compose) auto
  ultimately show ?case using u r by (simp add: o_def)
qed

section \<open>The collected cluster\<close>

lemma map_set_present:
  "(k, v) \<in> set m \<Longrightarrow> distinct (map fst m) \<Longrightarrow> map_set k v m = m"
  by (induction m) (auto simp: image_iff)

lemma map_set_absent:
  "k \<notin> fst ` set m \<Longrightarrow> map_set k v m = m @ [(k, v)]"
  by (induction m) auto

lemma map_has_iff: "map_has k m \<longleftrightarrow> k \<in> fst ` set m"
  by (auto simp: map_has_def list_ex_iff)

lemma map_set_row:
  assumes d: "distinct (map id_contact (rows tx))" and m: "rowmap tx m"
    and c: "c \<in> set (rows tx)"
  shows "rowmap tx (map_set (id_contact c) c m)
         \<and> snd ` set (map_set (id_contact c) c m) = insert c (snd ` set m)"
proof (cases "id_contact c \<in> fst ` set m")
  case True
  then obtain v where kv: "(id_contact c, v) \<in> set m" by auto
  then have "v \<in> set (rows tx)" "id_contact v = id_contact c"
    using m by (auto simp: rowmap_def)
  then have "v = c" using distinct_id_eq[OF d] c by blast
  then have "map_set (id_contact c) c m = m"
    using kv m by (intro map_set_present) (auto simp: rowmap_def)
  moreover have "c \<in> snd ` set m" using kv \<open>v = c\<close> by force
  ultimately show ?thesis using m by auto
next
  case False
  then have "map_set (id_contact c) c m = m @ [(id_contact c, c)]"
    by (rule map_set_absent)
  then show ?thesis using m c False by (auto simp: rowmap_def)
qed

lemma set_all_row:
  "distinct (map id_contact (rows tx)) \<Longrightarrow> rowmap tx m \<Longrightarrow> set cs \<subseteq> set (rows tx) \<Longrightarrow>
   rowmap tx (set_all cs m) \<and> snd ` set (set_all cs m) = set cs \<union> snd ` set m"
proof (induction cs arbitrary: m)
  case Nil
  then show ?case by simp
next
  case (Cons c cs)
  have c: "c \<in> set (rows tx)" using Cons.prems by simp
  note s = map_set_row[OF Cons.prems(1,2) c]
  have "rowmap tx (set_all cs (map_set (id_contact c) c m))
        \<and> snd ` set (set_all cs (map_set (id_contact c) c m))
            = set cs \<union> snd ` set (map_set (id_contact c) c m)"
    using Cons.prems s by (intro Cons.IH) auto
  then show ?case using s by auto
qed

lemma findContactById_Some:
  "findContactById tx i = Some p \<Longrightarrow> p \<in> set (rows tx) \<and> id_contact p = i"
  by (auto simp: findContactById_def find_Some_iff)

lemma findContactById_None:
  "findContactById tx i = None \<Longrightarrow> i \<notin> id_contact ` set (rows tx)"
  by (auto simp: findContactById_def find_None_iff)

lemma collect_loop_row:
  "distinct (map id_contact (rows tx)) \<Longrightarrow> rowmap tx m \<Longrightarrow>
   rowmap tx (collect_loop tx ps m)
   \<and> snd ` set (collect_loop tx ps m) =
       snd ` set m \<union>
       {c \<in> set (rows tx). live c \<and> (id_contact c \<in> set ps \<or> (\<exists>q \<in> set ps. linkedId c = Some q))}"
proof (induction ps arbitrary: m)
  case Nil
  then show ?case by simp
next
  case (Cons q ps)
  note d = Cons.prems(1)
  define m1 where "m1 = (if \<not> map_has q m
                then (case findContactById tx q of
                        None \<Rightarrow> m
                      | Some p \<Rightarrow> if deletedAt p = None then map_set (id_contact p) p m else m)
                else m)"
  have m1: "rowmap tx m1
            \<and> snd ` set m1 = snd ` set m \<union> {c \<in> set (rows tx). live c \<and> id_contact c = q}"
  proof (cases "map_has q m")
    case True
    then obtain v where kv: "(q, v) \<in> set m" by (auto simp: map_has_iff)
    then have v: "v \<in> set (rows tx)" "id_contact v = q"
      using Cons.prems(2) by (auto simp: rowmap_def)
    have "{c \<in> set (rows tx). live c \<and> id_contact c = q} \<subseteq> {v}"
      using distinct_id_eq[OF d] v by auto
    moreover have "v \<in> snd ` set m" using kv by force
    ultimately show ?thesis using True Cons.prems(2) by (auto simp: m1_def)
  next
    case False
    show ?thesis
    proof (cases "findContactById tx q")
      case None
      then show ?thesis
        using False Cons.prems(2) findContactById_None[OF None] by (auto simp: m1_def)
    next
      case (Some p)
      note p = findContactById_Some[OF Some]
      have e: "{c \<in> set (rows tx). id_contact c = q} = {p}"
        using distinct_id_eq[OF d] p by auto
      show ?thesis
      proof (cases "deletedAt p = None")
        case True
        have "{c \<in> set (rows tx). live c \<and> id_contact c = q} = {p}"
          using e True by (auto simp: live_def)
        then show ?thesis
          using False Some True map_set_row[OF d Cons.prems(2), of p] p
          by (simp add: m1_def)
      next
        case del: False
        have "{c \<in> set (rows tx). live c \<and> id_contact c = q} = {}"
          using e del by (auto simp: live_def)
        moreover have "m1 = m"
          using False Some del by (auto simp: m1_def)
        ultimately show ?thesis
          using Cons.prems(2) by auto
      qed
    qed
  qed
  have sub: "set (findContactsByPrimaryId tx q) \<subseteq> set (rows tx)" by auto
  note s = set_all_row[OF d conjunct1[OF m1] sub]
  note ih = Cons.IH[OF d conjunct1[OF s]]
  have "collect_loop tx (q # ps) m = collect_loop tx ps (set_all (findContactsByPrimaryId tx q) m1)"
    by (simp add: m1_def Let_def)
  then show ?case
    using ih s m1 by auto
qed

lemma set_set_add [simp]: "set (set_add k s) = insert k (set s)"
  by (auto simp: set_add_def)

lemma truthy_id_iff: "truthy_id l \<longleftrightarrow> (\<exists>q. l = Some q \<and> q \<noteq> 0)"
  by (cases l) (auto simp: truthy_id_def)

lemma set_collect_primaryIds:
  "set (collect_primaryIds M s) = set s \<union> primaryIds_of M"
proof (induction M arbitrary: s)
  case Nil
  then show ?case by (simp add: primaryIds_of_def)
next
  case (Cons c M)
  have "primaryIds_of (c # M) =
          (if linkPrecedence c = primary then {id_contact c}
           else if truthy_id (linkedId c) then {the (linkedId c)} else {}) \<union> primaryIds_of M"
    by (auto simp: primaryIds_of_def truthy_id_iff)
  then show ?case using Cons.IH by auto
qed

lemma distinct_map_sort_key:
  "distinct (map g (sort_key f xs)) = distinct (map g xs)"
  by (simp add: distinct_map)

lemma collectFullCluster_facts:
  assumes d: "distinct (map id_contact (rows tx))" and M: "set M \<subseteq> set (rows tx)"
  shows "set (collectFullCluster tx M) =
           set M \<union> {c \<in> set (rows tx). live c \<and>
                       (id_contact c \<in> primaryIds_of M \<or> (\<exists>q \<in> primaryIds_of M. linkedId c = Some q))}"
    and "distinct (map id_contact (collectFullCluster tx M))"
proof -
  have r0: "rowmap tx []" by (simp add: rowmap_def)
  note a = set_all_row[OF d r0 M]
  note b = collect_loop_row[OF d conjunct1[OF a], of "collect_primaryIds M []"]
  let ?m = "collect_loop tx (collect_primaryIds M []) (set_all M [])"
  have C: "collectFullCluster tx M = sort_key createdAt (map snd ?m)"
    by (simp add: collectFullCluster_def)
  show "set (collectFullCluster tx M) =
           set M \<union> {c \<in> set (rows tx). live c \<and>
                       (id_contact c \<in> primaryIds_of M \<or> (\<exists>q \<in> primaryIds_of M. linkedId c = Some q))}"
    using a b by (simp add: C set_collect_primaryIds)
  have e: "map id_contact (map snd ?m) = map fst ?m"
    using b by (auto simp: rowmap_def)
  have "distinct (map fst ?m)"
    using b by (simp add: rowmap_def)
  then have "distinct (map id_contact (map snd ?m))"
    by (simp only: e)
  then show "distinct (map id_contact (collectFullCluster tx M))"
    unfolding C distinct_map_sort_key .
qed

lemma demote_fn_empty_fun: "demote_fn oldest {} = (\<lambda>c. c)"
  by (rule ext) simp

lemma resolvePrimary_closed:
  assumes d: "distinct (map id_contact (rows tx))"
    and sub: "id_contact ` set C \<subseteq> id_contact ` set (rows tx)"
    and dC: "distinct (map id_contact C)"
  shows "resolvePrimary tx C =
           (case sort_key createdAt (filter (\<lambda>c. linkPrecedence c = primary) C) of
              [] \<Rightarrow> Inr (None, tx)
            | p # newer \<Rightarrow>
                Inr (Some p, tx\<lparr> rows := map (demote_fn (id_contact p) (id_contact ` set newer))
                                           (rows tx) \<rparr>))"
proof -
  let ?ps = "filter (\<lambda>c. linkPrecedence c = primary) C"
  show ?thesis
  proof (cases "sort_key createdAt ?ps")
    case Nil
    then have "?ps = []" using length_sort[of createdAt ?ps] by auto
    then show ?thesis by (simp add: resolvePrimary_def)
  next
    case (Cons p newer)
    have dps: "distinct (map id_contact (p # newer))"
      using dC distinct_map_filter[of id_contact C]
      unfolding Cons[symmetric] distinct_map_sort_key by blast
    have set_eq: "set (p # newer) = set ?ps"
      unfolding Cons[symmetric] by simp
    show ?thesis
    proof (cases "length ?ps \<le> 1")
      case True
      then obtain q where q: "?ps = [q]"
        using Cons length_sort[of createdAt ?ps]
        by (cases ?ps) (auto simp: Suc_le_eq)
      then have "sort_key createdAt ?ps = [q]" by simp
      then show ?thesis using q by (simp add: resolvePrimary_def demote_fn_empty_fun)
    next
      case False
      have "demote_loop tx (id_contact p) newer =
              Inr (tx\<lparr> rows := map (demote_fn (id_contact p) (id_contact ` set newer)) (rows tx) \<rparr>)"
      proof (rule demote_loop_closed[OF d])
        show "id_contact ` set newer \<subseteq> id_contact ` set (rows tx)"
          using sub set_eq by auto
        show "id_contact p \<notin> id_contact ` set newer" using dps by auto
        show "distinct (map id_contact newer)" using dps by simp
      qed
      then show ?thesis using False Cons by (simp add: resolvePrimary_def)
    qed
  qed
qed

section \<open>Closed form of identify\<close>

lemma set_findMatchingContacts:
  "set (findMatchingContacts tx em ph) =
     {c \<in> set (rows tx). live c \<and>
        ((truthy em \<and> email c = em) \<or> (truthy ph \<and> phoneNumber c = ph))}"
  by (auto simp: findMatchingContacts_eq)

lemma comboExists_absent:
  "\<not> truthy em \<Longrightarrow> \<not> truthy ph \<Longrightarrow> comboExists (p # cl) em ph"
  by (simp add: comboExists_def)

lemma createSecondaryIfNeeded_eq:
  "createSecondaryIfNeeded tx now cl p em ph =
     (if comboExists (p # cl) em ph then tx
      else tx\<lparr> rows := rows tx @ [new_secondary tx now p em ph], nextId := Suc (nextId tx) \<rparr>)"
  using comboExists_absent[of em ph p cl]
  by (auto simp: createSecondaryIfNeeded_def createContact_def new_secondary_def Let_def)

lemma handleMatch_closed:
  assumes d: "distinct (map id_contact (rows tx))" and M: "set M \<subseteq> set (rows tx)"
  shows "handleMatch tx now M em ph =
    (case sort_key createdAt (filter (\<lambda>c. linkPrecedence c = primary) (collectFullCluster tx M)) of
       [] \<Rightarrow> Inl TypeError
     | p # newer \<Rightarrow>
         (let tx1 = merged tx p newer;
              tx2 = createSecondaryIfNeeded tx1 now (findContactsByPrimaryId tx1 (id_contact p)) p em ph
          in Inr (buildResponse p (findContactsByPrimaryId tx2 (id_contact p)), tx2)))"
proof -
  note f = collectFullCluster_facts[OF d M]
  have "set (collectFullCluster tx M) \<subseteq> set (rows tx)"
    using M unfolding f(1) by auto
  then have sub: "id_contact ` set (collectFullCluster tx M) \<subseteq> id_contact ` set (rows tx)"
    by auto
  show ?thesis
    unfolding handleMatch_def Let_def resolvePrimary_closed[OF d sub f(2)] refreshCluster_def
      merged_def
    by (simp split: list.splits)
qed

lemma identify_closed:
  assumes d: "distinct (map id_contact (rows tx))"
    and M: "findMatchingContacts tx em ph \<noteq> []"
  shows "identify tx now em ph =
    (case sort_key createdAt (filter (\<lambda>c. linkPrecedence c = primary)
             (collectFullCluster tx (findMatchingContacts tx em ph))) of
       [] \<Rightarrow> Inl TypeError
     | p # newer \<Rightarrow>
         (let tx1 = merged tx p newer;
              tx2 = createSecondaryIfNeeded tx1 now (findContactsByPrimaryId tx1 (id_contact p)) p em ph
          in Inr (buildResponse p (findContactsByPrimaryId tx2 (id_contact p)), tx2)))"
proof -
  have "set (findMatchingContacts tx em ph) \<subseteq> set (rows tx)"
    by (auto simp: set_findMatchingContacts)
  from handleMatch_closed[OF d this] M show ?thesis
    by (simp add: identify_def)
qed

section \<open>Preservation of the invariants by the steps\<close>

lemma cluster_live_rows:
  assumes d: "distinct (map id_contact (rows tx))"
    and M: "set M \<subseteq> {c \<in> set (rows tx). live c}"
  shows "set (collectFullCluster tx M) \<subseteq> {c \<in> set (rows tx). live c}"
proof -
  have "set M \<subseteq> set (rows tx)" using M by auto
  from collectFullCluster_facts(1)[OF d this] M show ?thesis by auto
qed

lemma matching_live_rows:
  "set (findMatchingContacts tx em ph) \<subseteq> {c \<in> set (rows tx). live c}"
  by (auto simp: set_findMatchingContacts)

lemma resolved_facts:
  assumes d: "distinct (map id_contact (rows tx))"
    and M: "set M \<subseteq> {c \<in> set (rows tx). live c}"
    and s: "sort_key createdAt (filter (\<lambda>c. linkPrecedence c = primary) (collectFullCluster tx M))
              = p # newer"
  shows "set (p # newer) = {c \<in> set (collectFullCluster tx M). linkPrecedence c = primary}"
    and "p \<in> set (rows tx)" and "live p" and "linkPrecedence p = primary"
    and "set newer \<subseteq> {c \<in> set (rows tx). live c \<and> linkPrecedence c = primary}"
    and "id_contact p \<notin> id_contact ` set newer"
proof -
  let ?C = "collectFullCluster tx M"
  have M': "set M \<subseteq> set (rows tx)" using M by auto
  show e: "set (p # newer) = {c \<in> set ?C. linkPrecedence c = primary}"
    unfolding s[symmetric] by auto
  note l = cluster_live_rows[OF d M]
  show "p \<in> set (rows tx)" "live p" "linkPrecedence p = primary"
    using e l by auto
  show "set newer \<subseteq> {c \<in> set (rows tx). live c \<and> linkPrecedence c = primary}"
    using e l by auto
  have "distinct (map id_contact (p # newer))"
    using collectFullCluster_facts(2)[OF d M'] distinct_map_filter[of id_contact ?C]
    unfolding s[symmetric] distinct_map_sort_key by blast
  then show "id_contact p \<notin> id_contact ` set newer" by auto
qed

subsection \<open>db_ok\<close>

lemma db_ok_merged: "db_ok tx \<Longrightarrow> db_ok (merged tx p newer)"
  by (simp add: db_ok_def merged_def o_def list_all_iff)

lemma db_ok_append:
  "db_ok tx \<Longrightarrow> id_contact c = nextId tx \<Longrightarrow>
   db_ok (tx\<lparr> rows := rows tx @ [c], nextId := Suc (nextId tx) \<rparr>)"
  by (auto simp: db_ok_def list_all_iff)

lemma db_ok_createSecondaryIfNeeded:
  "db_ok tx \<Longrightarrow> db_ok (createSecondaryIfNeeded tx now cl p em ph)"
  by (simp add: createSecondaryIfNeeded_eq db_ok_append new_secondary_def)

subsection \<open>primaries_unlinked\<close>

lemma primaries_unlinked_merged:
  "primaries_unlinked tx \<Longrightarrow> primaries_unlinked (merged tx p newer)"
  by (auto simp: primaries_unlinked_def merged_def list_all_iff demote_fn_def)

lemma primaries_unlinked_append:
  "primaries_unlinked tx \<Longrightarrow> (linkPrecedence c = primary \<longrightarrow> linkedId c = None) \<Longrightarrow>
   primaries_unlinked (tx\<lparr> rows := rows tx @ [c], nextId := n \<rparr>)"
  by (auto simp: primaries_unlinked_def list_all_iff)

lemma primaries_unlinked_createSecondaryIfNeeded:
  "primaries_unlinked tx \<Longrightarrow> primaries_unlinked (createSecondaryIfNeeded tx now cl p em ph)"
  by (simp add: createSecondaryIfNeeded_eq primaries_unlinked_append new_secondary_def)

subsection \<open>star_on\<close>

lemma star_on_merged:
  assumes s: "star_on ok tx"
    and ok: "\<And>oldest D c. ok (demote_fn oldest D c) = ok c"
    and p: "p \<in> set (rows tx)" "linkPrecedence p = primary" "ok p"
    and np: "id_contact p \<notin> id_contact ` set newer"
  shows "star_on ok (merged tx p newer)"
proof -
  let ?D = "id_contact ` set newer"
  let ?f = "demote_fn (id_contact p) ?D"
  have pp: "?f p \<in> set (rows (merged tx p newer))" "linkPrecedence (?f p) = primary"
    "ok (?f p)" "id_contact (?f p) = id_contact p"
    using p np ok by (auto simp: merged_def) (auto simp: demote_fn_def)
  have "\<exists>q \<in> set (rows (merged tx p newer)).
           linkedId (?f c) = Some (id_contact q) \<and> linkPrecedence q = primary \<and> ok q"
    if c: "c \<in> set (rows tx)" and sec: "linkPrecedence (?f c) = secondary" and lv: "live c" for c
  proof (cases "id_contact c \<in> ?D \<or> (\<exists>n \<in> ?D. linkedId c = Some n)")
    case True
    then have "linkedId (?f c) = Some (id_contact p)"
      using lv by (auto simp: demote_fn_def)
    then show ?thesis using pp by metis
  next
    case False
    then have same: "?f c = c" by (auto simp: demote_fn_def)
    then have "linkPrecedence c = secondary" using sec by simp
    then obtain q where q: "q \<in> set (rows tx)" "linkedId c = Some (id_contact q)"
        "linkPrecedence q = primary" "ok q"
      using s c lv by (auto simp: star_on_def list_all_iff list_ex_iff)
    have "id_contact q \<notin> ?D" using False q(2) by auto
    then have "linkPrecedence (?f q) = primary"
      using q(3) by (auto simp: demote_fn_def)
    moreover have "?f q \<in> set (rows (merged tx p newer))"
      using q(1) by (simp add: merged_def)
    ultimately show ?thesis using same q(2) q(4) ok
      by (metis demote_fn_fields(1))
  qed
  then show ?thesis
    by (auto simp: star_on_def list_all_iff list_ex_iff merged_def)
qed

lemma star_on_append:
  assumes "star_on ok tx"
    and "linkPrecedence c = secondary \<longrightarrow>
           (\<exists>q \<in> set (rows tx). linkedId c = Some (id_contact q) \<and> linkPrecedence q = primary \<and> ok q)"
  shows "star_on ok (tx\<lparr> rows := rows tx @ [c], nextId := n \<rparr>)"
  using assms by (auto simp: star_on_def list_all_iff list_ex_iff)

lemma star_on_createSecondaryIfNeeded:
  assumes "star_on ok tx" "q \<in> set (rows tx)" "id_contact q = id_contact p"
    "linkPrecedence q = primary" "ok q"
  shows "star_on ok (createSecondaryIfNeeded tx now cl p em ph)"
proof -
  have "\<exists>q \<in> set (rows tx). linkedId (new_secondary tx now p em ph) = Some (id_contact q)
           \<and> linkPrecedence q = primary \<and> ok q"
    using assms(2-5) by (intro bexI[of _ q]) (simp_all add: new_secondary_def)
  then show ?thesis
    using assms(1) by (simp add: createSecondaryIfNeeded_eq star_on_append)
qed

section \<open>Preservation of the invariants by identify\<close>

lemma identify_Inr_cases [consumes 2, case_names no_match match]:
  assumes d: "distinct (map id_contact (rows tx))"
    and i: "identify tx now em ph = Inr (r, tx')"
  obtains
    (no_match) "findMatchingContacts tx em ph = []"
      "tx' = tx\<lparr> rows := rows tx @ [new_primary tx now em ph], nextId := Suc (nextId tx) \<rparr>"
      "r = buildResponse (new_primary tx now em ph) []"
  | (match) p newer where "findMatchingContacts tx em ph \<noteq> []"
      "sort_key createdAt (filter (\<lambda>c. linkPrecedence c = primary)
             (collectFullCluster tx (findMatchingContacts tx em ph))) = p # newer"
      "tx' = createSecondaryIfNeeded (merged tx p newer) now
               (findContactsByPrimaryId (merged tx p newer) (id_contact p)) p em ph"
      "r = buildResponse p (findContactsByPrimaryId tx' (id_contact p))"
proof (cases "findMatchingContacts tx em ph = []")
  case True
  have "identify tx now em ph =
          Inr (buildResponse (new_primary tx now em ph) [],
               tx\<lparr> rows := rows tx @ [new_primary tx now em ph], nextId := Suc (nextId tx) \<rparr>)"
    unfolding identify_no_match_eq[OF True] by (simp add: new_primary_def buildResponse_Nil)
  with i have
    "tx' = tx\<lparr> rows := rows tx @ [new_primary tx now em ph], nextId := Suc (nextId tx) \<rparr>"
    "r = buildResponse (new_primary tx now em ph) []"
    by simp_all
  with True show ?thesis by (rule no_match)
next
  case False
  note c = identify_closed[OF d False, of now]
  show ?thesis
  proof (cases "sort_key createdAt (filter (\<lambda>c. linkPrecedence c = primary)
             (collectFullCluster tx (findMatchingContacts tx em ph)))")
    case Nil
    then show ?thesis using c i by simp
  next
    case (Cons p newer)
    then show ?thesis using c i False by (intro match[of p newer]) (auto simp: Let_def)
  qed
qed

lemma identify_db_ok:
  assumes "db_ok tx" and "identify tx now em ph = Inr (r, tx')"
  shows "db_ok tx'"
proof -
  have d: "distinct (map id_contact (rows tx))" using assms(1) by (simp add: db_ok_def)
  from d assms(2) show ?thesis
  proof (cases rule: identify_Inr_cases)
    case no_match
    then show ?thesis using assms(1) by (simp add: db_ok_append new_primary_def)
  next
    case (match p newer)
    then show ?thesis
      using assms(1) by (simp add: db_ok_merged db_ok_createSecondaryIfNeeded)
  qed
qed

lemma identify_primaries_unlinked:
  assumes "db_ok tx" and "primaries_unlinked tx" and "identify tx now em ph = Inr (r, tx')"
  shows "primaries_unlinked tx'"
proof -
  have d: "distinct (map id_contact (rows tx))" using assms(1) by (simp add: db_ok_def)
  from d assms(3) show ?thesis
  proof (cases rule: identify_Inr_cases)
    case no_match
    then show ?thesis using assms(2) by (simp add: primaries_unlinked_append new_primary_def)
  next
    case (match p newer)
    then show ?thesis
      using assms(2)
      by (simp add: primaries_unlinked_merged primaries_unlinked_createSecondaryIfNeeded)
  qed
qed

lemma merged_row:
  "c \<in> set (rows tx) \<Longrightarrow>
   demote_fn (id_contact p) (id_contact ` set newer) c \<in> set (rows (merged tx p newer))"
  by (simp add: merged_def)

lemma identify_star_on:
  assumes db: "db_ok tx" and s: "star_on ok tx"
    and ok: "\<And>oldest D c. ok (demote_fn oldest D c) = ok c"
    and lv: "\<And>c. live c \<Longrightarrow> ok c"
    and i: "identify tx now em ph = Inr (r, tx')"
  shows "star_on ok tx'"
proof -
  have d: "distinct (map id_contact (rows tx))" using db by (simp add: db_ok_def)
  from d i show ?thesis
  proof (cases rule: identify_Inr_cases)
    case no_match
    then show ?thesis using s by (simp add: star_on_append new_primary_def)
  next
    case (match p newer)
    note f = resolved_facts[OF d matching_live_rows match(2)]
    let ?q = "demote_fn (id_contact p) (id_contact ` set newer) p"
    have m: "star_on ok (merged tx p newer)"
      using s ok f(2) f(4) lv[OF f(3)] f(6) by (rule star_on_merged)
    have q: "?q \<in> set (rows (merged tx p newer))" using f(2) by (rule merged_row)
    have "linkPrecedence ?q = primary"
      using f(4) f(6) by (auto simp: demote_fn_def)
    moreover have "ok ?q" using lv[OF f(3)] ok by simp
    ultimately show ?thesis
      unfolding match(3) using m q
      by (intro star_on_createSecondaryIfNeeded[where q="?q"]) auto
  qed
qed

lemma cluster_has_primary:
  assumes db: "db_ok tx" and s: "star_on live tx"
    and ne: "M \<noteq> []" and M: "set M \<subseteq> {c \<in> set (rows tx). live c}"
  shows "\<exists>c \<in> set (collectFullCluster tx M). linkPrecedence c = primary"
proof -
  have d: "distinct (map id_contact (rows tx))" using db by (simp add: db_ok_def)
  have M': "set M \<subseteq> set (rows tx)" using M by auto
  note f = collectFullCluster_facts(1)[OF d M']
  obtain c where c: "c \<in> set M" using ne by (cases M) auto
  show ?thesis
  proof (cases "linkPrecedence c")
    case primary
    then show ?thesis using c f by auto
  next
    case secondary
    have "c \<in> set (rows tx)" "live c" using c M by auto
    then obtain q where q: "q \<in> set (rows tx)" "linkedId c = Some (id_contact q)"
        "linkPrecedence q = primary" "live q"
      using s secondary by (auto simp: star_on_def list_all_iff list_ex_iff)
    have "0 < id_contact q" using db q(1) by (auto simp: db_ok_def list_all_iff)
    moreover have "linkPrecedence c \<noteq> primary" using secondary by simp
    ultimately have "\<exists>c \<in> set M. linkPrecedence c \<noteq> primary
                        \<and> linkedId c = Some (id_contact q) \<and> id_contact q \<noteq> 0"
      using c q(2) by (intro bexI[of _ c]) simp_all
    then have "id_contact q \<in> primaryIds_of M"
      by (simp add: primaryIds_of_def)
    then have "q \<in> set (collectFullCluster tx M)"
      using q unfolding f by auto
    then show ?thesis using q(3) by auto
  qed
qed

lemma sort_key_nonempty:
  "x \<in> set xs \<Longrightarrow> \<exists>p newer. sort_key f xs = p # newer"
  by (cases "sort_key f xs") (auto dest: arg_cong[where f=set])

lemma identify_total:
  assumes db: "db_ok tx" and s: "star_on live tx"
  shows "\<exists>r tx'. identify tx now em ph = Inr (r, tx')"
proof (cases "findMatchingContacts tx em ph = []")
  case True
  then show ?thesis using identify_no_match_eq[OF True] by blast
next
  case False
  have d: "distinct (map id_contact (rows tx))" using db by (simp add: db_ok_def)
  obtain c where "c \<in> set (collectFullCluster tx (findMatchingContacts tx em ph))"
      "linkPrecedence c = primary"
    using cluster_has_primary[OF db s False matching_live_rows] by blast
  then have "c \<in> set (filter (\<lambda>c. linkPrecedence c = primary)
             (collectFullCluster tx (findMatchingContacts tx em ph)))" by simp
  from sort_key_nonempty[OF this, of createdAt] obtain p newer where
    "sort_key createdAt (filter (\<lambda>c. linkPrecedence c = primary)
             (collectFullCluster tx (findMatchingContacts tx em ph))) = p # newer" by blast
  then show ?thesis
    using identify_closed[OF d False, of now] by (simp add: Let_def)
qed

section \<open>The response lists\<close>

lemma first_seen_snoc:
  "first_seen (xs @ [x]) = (if x \<in> set xs then first_seen xs else first_seen xs @ [x])"
  by (simp add: first_seen_def)

lemma set_first_seen [simp]: "set (first_seen xs) = set xs"
  by (simp add: first_seen_def)

lemma distinct_first_seen [simp]: "distinct (first_seen xs)"
  by (simp add: first_seen_def)

lemma first_seen_Nil [simp]: "first_seen [] = []"
  by (simp add: first_seen_def)

lemma present_values_Cons:
  "present_values (v # vs) = (if truthy v then the v # present_values vs else present_values vs)"
  by (simp add: present_values_def)

lemma present_values_Nil [simp]: "present_values [] = []"
  by (simp add: present_values_def)

lemma push_new_first_seen:
  "push_new v (first_seen xs) = first_seen (xs @ present_values [v])"
  by (simp add: push_new_def present_values_Cons first_seen_snoc)

lemma fold_push_new:
  "fold push_new vs (first_seen xs) = first_seen (xs @ present_values vs)"
proof (induction vs arbitrary: xs)
  case Nil
  then show ?case by simp
next
  case (Cons v vs)
  show ?case
    using Cons.IH[of "xs @ present_values [v]"]
    by (simp add: push_new_first_seen present_values_Cons)
qed

lemma response_loop_closed:
  "response_loop ss (es, ps, ids) =
     (fold push_new (map email ss) es, fold push_new (map phoneNumber ss) ps,
      ids @ map id_contact ss)"
proof (induction ss arbitrary: es ps ids)
  case Nil
  show ?case by simp
next
  case (Cons s ss)
  have "response_loop (s # ss) (es, ps, ids) = response_loop ss (push_new (email s) es, push_new (phoneNumber s) ps, ids @ [id_contact s])"
    by (simp only: response_loop.simps)
  also have "\<dots> = (fold push_new (map email ss) (push_new (email s) es), fold push_new (map phoneNumber ss) (push_new (phoneNumber s) ps),
      (ids @ [id_contact s]) @ map id_contact ss)"
    by (rule Cons.IH)
  finally show ?case
    by (simp only: list.map fold_simps append_assoc append.simps)
qed

lemma buildResponse_closed:
  "buildResponse p secs =
     \<lparr> primaryContactId = id_contact p,
       emails = first_seen (present_values (map email (p # secs))),
       phoneNumbers = first_seen (present_values (map phoneNumber (p # secs))),
       secondaryContactIds = map id_contact secs \<rparr>"
proof -
  have e: "(if truthy v then [the v] else []) = first_seen (present_values [v])" for v
    by (simp add: present_values_Cons first_seen_def)
  have c: "present_values [v] @ present_values vs = present_values (v # vs)" for v vs
    by (simp add: present_values_Cons)
  show ?thesis
    unfolding buildResponse_def Let_def e response_loop_closed fold_push_new c
    by simp
qed

section \<open>Consequences of the invariants\<close>

lemma db_ok_distinct: "db_ok tx \<Longrightarrow> distinct (map id_contact (rows tx))"
  by (simp add: db_ok_def)

lemma db_ok_pos:
  "db_ok tx \<Longrightarrow> c \<in> set (rows tx) \<Longrightarrow> 0 < id_contact c \<and> id_contact c < nextId tx"
  by (auto simp: db_ok_def list_all_iff)

lemma primaries_unlinkedD:
  "primaries_unlinked tx \<Longrightarrow> c \<in> set (rows tx) \<Longrightarrow> linkPrecedence c = primary \<Longrightarrow>
   linkedId c = None"
  by (auto simp: primaries_unlinked_def list_all_iff)

lemma star_onD:
  "star_on ok tx \<Longrightarrow> c \<in> set (rows tx) \<Longrightarrow> linkPrecedence c = secondary \<Longrightarrow> live c \<Longrightarrow>
   \<exists>q \<in> set (rows tx). linkedId c = Some (id_contact q) \<and> linkPrecedence q = primary \<and> ok q"
  by (auto simp: star_on_def list_all_iff list_ex_iff)

lemma not_primary_iff: "linkPrecedence c \<noteq> primary \<longleftrightarrow> linkPrecedence c = secondary"
  by (cases "linkPrecedence c") auto

lemma in_primaryIds_primary:
  "c \<in> set M \<Longrightarrow> linkPrecedence c = primary \<Longrightarrow> id_contact c \<in> primaryIds_of M"
  by (auto simp: primaryIds_of_def)

lemma in_primaryIds_secondary:
  "c \<in> set M \<Longrightarrow> linkPrecedence c = secondary \<Longrightarrow> linkedId c = Some q \<Longrightarrow> q \<noteq> 0 \<Longrightarrow>
   q \<in> primaryIds_of M"
  unfolding primaryIds_of_def by (rule UnI2) (auto intro!: bexI[of _ c])

lemma primaryIds_cases:
  assumes "i \<in> primaryIds_of M"
  obtains (prim) c where "c \<in> set M" "linkPrecedence c = primary" "i = id_contact c"
  | (sec) c where "c \<in> set M" "linkPrecedence c = secondary" "linkedId c = Some i" "i \<noteq> 0"
  using assms by (auto simp: primaryIds_of_def not_primary_iff)

lemma no_link_to_fresh:
  assumes db: "db_ok tx" and pu: "primaries_unlinked tx" and st: "star tx"
    and c: "c \<in> set (rows tx)" and l: "live c"
  shows "linkedId c \<noteq> Some (nextId tx)"
proof (cases "linkPrecedence c")
  case primary
  then show ?thesis using primaries_unlinkedD[OF pu c] by simp
next
  case secondary
  from star_onD[OF st[unfolded star_def] c secondary l] obtain q where
    "q \<in> set (rows tx)" "linkedId c = Some (id_contact q)" by blast
  then show ?thesis using db_ok_pos[OF db, of q] by auto
qed

lemma fresh_no_secondaries:
  assumes db: "db_ok tx" and pu: "primaries_unlinked tx" and st: "star tx"
  shows "findContactsByPrimaryId
           (tx\<lparr> rows := rows tx @ [new_primary tx now em ph], nextId := Suc (nextId tx) \<rparr>)
           (nextId tx) = []"
proof -
  have "set (findContactsByPrimaryId
           (tx\<lparr> rows := rows tx @ [new_primary tx now em ph], nextId := Suc (nextId tx) \<rparr>)
           (nextId tx)) = {}"
    using no_link_to_fresh[OF db pu st] by (auto simp: new_primary_def)
  then show ?thesis by (simp only: set_empty)
qed

lemma merged_primary_same:
  assumes pu: "primaries_unlinked tx" and p: "p \<in> set (rows tx)" "linkPrecedence p = primary"
    and np: "id_contact p \<notin> D"
  shows "demote_fn oldest D p = p"
  using primaries_unlinkedD[OF pu p] np by (simp add: demote_fn_def)

lemma set_matching_merged:
  "set (findMatchingContacts (merged tx p newer) em ph) =
     demote_fn (id_contact p) (id_contact ` set newer) ` set (findMatchingContacts tx em ph)"
  by (auto simp: set_findMatchingContacts merged_def)

lemma comboExists_iff:
  "comboExists l em ph \<longleftrightarrow>
     (\<exists>c \<in> set l. (\<not> truthy em \<or> email c = em) \<and> (\<not> truthy ph \<or> phoneNumber c = ph))"
  by (simp add: comboExists_def list_ex_iff)

lemma rows_createSecondaryIfNeeded:
  "rows (createSecondaryIfNeeded tx now cl p em ph) =
     (if comboExists (p # cl) em ph then rows tx
      else rows tx @ [new_secondary tx now p em ph])"
  by (simp add: createSecondaryIfNeeded_eq)

lemma singleton_list: "set l = {p} \<Longrightarrow> distinct l \<Longrightarrow> l = [p]"
  by (cases l) (auto simp: subset_singleton_iff dest!: subset_singletonD)

lemma filter_eq_single:
  "distinct xs \<Longrightarrow> p \<in> set xs \<Longrightarrow> filter (\<lambda>c. c = p) xs = [p]"
  by (induction xs) (auto simp: filter_empty_conv)

lemma primaryContactId_buildResponse:
  "primaryContactId (buildResponse p secs) = id_contact p"
  by (simp add: buildResponse_closed)


lemma first_seen_Cons:
  "first_seen (x # xs) = x # first_seen (filter (\<lambda>y. y \<noteq> x) xs)"
proof (induction xs rule: rev_induct)
  case Nil
  then show ?case by (simp add: first_seen_def)
next
  case (snoc y ys)
  have "first_seen (x # ys @ [y]) = first_seen ((x # ys) @ [y])" by simp
  also have "\<dots> = (if y \<in> set (x # ys) then first_seen (x # ys) else first_seen (x # ys) @ [y])"
    by (rule first_seen_snoc)
  finally show ?case
    using snoc.IH by (auto simp: first_seen_snoc)
qed

section \<open>The cluster of a well-formed store\<close>

lemma primaryIds_live_primaries:
  assumes s: "star_live tx" and M: "set M \<subseteq> {c \<in> set (rows tx). live c}"
    and i: "i \<in> primaryIds_of M"
  shows "\<exists>q \<in> set (rows tx). id_contact q = i \<and> linkPrecedence q = primary \<and> live q"
  using i
proof (cases rule: primaryIds_cases)
  case (prim c)
  then show ?thesis using M by auto
next
  case (sec c)
  then have "c \<in> set (rows tx)" "live c" using M by auto
  from star_onD[OF s[unfolded star_live_def] this(1) sec(2) this(2)] sec(3)
  show ?thesis by auto
qed

lemma secondary_primary_in_cluster:
  assumes db: "db_ok tx" and s: "star_live tx"
    and M: "set M \<subseteq> {c \<in> set (rows tx). live c}"
    and c: "c \<in> set (collectFullCluster tx M)" and sec: "linkPrecedence c = secondary"
  shows "\<exists>q \<in> set (collectFullCluster tx M).
           linkedId c = Some (id_contact q) \<and> linkPrecedence q = primary"
proof -
  note d = db_ok_distinct[OF db]
  have M': "set M \<subseteq> set (rows tx)" using M by auto
  note f = collectFullCluster_facts(1)[OF d M']
  have cl: "c \<in> set (rows tx)" "live c"
    using cluster_live_rows[OF d M] c by auto
  obtain q where q: "q \<in> set (rows tx)" "linkedId c = Some (id_contact q)"
      "linkPrecedence q = primary" "live q"
    using star_onD[OF s[unfolded star_live_def] cl(1) sec cl(2)] by blast
  have pos: "id_contact q \<noteq> 0" using db_ok_pos[OF db q(1)] by simp
  have "id_contact q \<in> primaryIds_of M"
  proof -
    consider "c \<in> set M" | "id_contact c \<in> primaryIds_of M"
      | i where "i \<in> primaryIds_of M" "linkedId c = Some i"
      using c unfolding f by auto
    then show ?thesis
    proof cases
      case 1
      then show ?thesis using in_primaryIds_secondary[OF 1 sec q(2) pos] by simp
    next
      case 2
      from primaryIds_live_primaries[OF s M 2] obtain q' where
        q': "q' \<in> set (rows tx)" "id_contact q' = id_contact c" "linkPrecedence q' = primary"
        by blast
      then have "q' = c" using distinct_id_eq[OF d _ cl(1)] by blast
      then show ?thesis using sec q'(3) by simp
    next
      case 3
      then show ?thesis using q(2) by simp
    qed
  qed
  then have "q \<in> set (collectFullCluster tx M)"
    using q unfolding f by auto
  then show ?thesis using q by blast
qed

lemma merged_touched:
  assumes db: "db_ok tx" and pu: "primaries_unlinked tx" and sl: "star_live tx"
    and M: "set M \<subseteq> {c \<in> set (rows tx). live c}"
    and s: "sort_key createdAt (filter (\<lambda>c. linkPrecedence c = primary) (collectFullCluster tx M))
              = p # newer"
    and c: "c \<in> set (collectFullCluster tx M)"
  shows "demote_fn (id_contact p) (id_contact ` set newer) c = p
         \<or> (linkedId (demote_fn (id_contact p) (id_contact ` set newer) c) = Some (id_contact p)
            \<and> linkPrecedence (demote_fn (id_contact p) (id_contact ` set newer) c) = secondary)"
proof -
  note d = db_ok_distinct[OF db]
  note r = resolved_facts[OF d M s]
  let ?D = "id_contact ` set newer"
  have cl: "c \<in> set (rows tx)" "live c"
    using cluster_live_rows[OF d M] c by auto
  show ?thesis
  proof (cases "linkPrecedence c")
    case primary
    then have "c \<in> set (p # newer)" using r(1) c by simp
    then consider "c = p" | "c \<in> set newer" by auto
    then show ?thesis
    proof cases
      case 1
      then show ?thesis using merged_primary_same[OF pu r(2) r(4) r(6)] by simp
    next
      case 2
      then show ?thesis by (simp add: demote_fn_def)
    qed
  next
    case secondary
    obtain q where q: "q \<in> set (collectFullCluster tx M)" "linkedId c = Some (id_contact q)"
        "linkPrecedence q = primary"
      using secondary_primary_in_cluster[OF db sl M c secondary] by blast
    then have qq: "q \<in> set (p # newer)" using r(1) by simp
    have nd: "id_contact c \<notin> ?D"
    proof
      assume "id_contact c \<in> ?D"
      then obtain n where n: "n \<in> set newer" "id_contact n = id_contact c" by auto
      then have n': "n \<in> set (rows tx)" "linkPrecedence n = primary" using r(5) by auto
      then have "n = c" using distinct_id_eq[OF d _ cl(1)] n(2) by blast
      then show False using secondary n'(2) by simp
    qed
    from qq consider "q = p" | "q \<in> set newer" by auto
    then show ?thesis
    proof cases
      case 1
      then have "\<not> (\<exists>n \<in> ?D. linkedId c = Some n)" using q(2) r(6) by auto
      then have "demote_fn (id_contact p) ?D c = c" using nd by (simp add: demote_fn_def)
      then show ?thesis using q(2) 1 secondary by simp
    next
      case 2
      then have "\<exists>n \<in> ?D. linkedId c = Some n" using q(2) by auto
      then show ?thesis using nd cl(2) secondary by (simp add: demote_fn_def)
    qed
  qed
qed

lemma one_primary:
  assumes db: "db_ok tx" and pu: "primaries_unlinked tx"
    and p: "p \<in> set (rows tx)" "linkPrecedence p = primary"
  shows "filter (\<lambda>c. linkPrecedence c = primary) (cluster_of tx (id_contact p)) = [p]"
proof -
  note d = db_ok_distinct[OF db]
  have "(c = p) = ((id_contact c = id_contact p \<or> linkedId c = Some (id_contact p))
                    \<and> linkPrecedence c = primary)" if c: "c \<in> set (rows tx)" for c
    using primaries_unlinkedD[OF pu c] distinct_id_eq[OF d c p(1)] p(2)
    by auto
  then have "filter (\<lambda>c. linkPrecedence c = primary) (cluster_of tx (id_contact p))
               = filter (\<lambda>c. c = p) (rows tx)"
    unfolding cluster_of_def filter_filter by (intro filter_cong) auto
  moreover have "distinct (rows tx)" using d by (simp add: distinct_map)
  ultimately show ?thesis using filter_eq_single p(1) by simp
qed

section \<open>A second call with the same pair\<close>

lemma identify_wf_store:
  assumes "wf_store tx" and "identify tx now em ph = Inr (r, tx')"
  shows "wf_store tx'"
  using assms identify_db_ok[of tx now em ph r tx']
    identify_primaries_unlinked[of tx now em ph r tx']
    identify_star_on[of tx "\<lambda>p. True" now em ph r tx']
  by (simp add: wf_store_def star_def)

lemma identify_star_live:
  assumes "db_ok tx" and "star_live tx" and "identify tx now em ph = Inr (r, tx')"
  shows "star_live tx'"
  using assms identify_star_on[of tx live now em ph r tx']
  by (simp add: star_live_def)

lemma identify_Inl_now:
  assumes db: "db_ok tx" and i: "identify tx now em ph = Inl e"
  shows "identify tx now' em ph = Inl e"
proof (cases "findMatchingContacts tx em ph = []")
  case True
  then show ?thesis using i identify_no_match_eq[OF True, of now] by simp
next
  case False
  note c = identify_closed[OF db_ok_distinct[OF db] False]
  show ?thesis
    using i unfolding c[of now] c[of now']
    by (simp add: Let_def split: list.splits)
qed

lemma identify_stable:
  assumes db: "db_ok tx" and pu: "primaries_unlinked tx"
    and p: "p \<in> set (rows tx)" "linkPrecedence p = primary" "live p"
    and some: "\<exists>c \<in> set (findMatchingContacts tx em ph).
                 c = p \<or> (linkPrecedence c = secondary \<and> linkedId c = Some (id_contact p))"
    and al1: "\<forall>c \<in> set (findMatchingContacts tx em ph). linkPrecedence c = primary \<longrightarrow> c = p"
    and al2: "\<forall>c \<in> set (findMatchingContacts tx em ph). \<forall>q \<in> set (rows tx).
                 linkedId c = Some (id_contact q) \<and> linkPrecedence q = primary \<and> live q
                 \<longrightarrow> q = p"
    and combo: "comboExists (p # findContactsByPrimaryId tx (id_contact p)) em ph"
  shows "identify tx now em ph =
           Inr (buildResponse p (findContactsByPrimaryId tx (id_contact p)), tx)"
proof -
  let ?M = "findMatchingContacts tx em ph"
  let ?C = "collectFullCluster tx ?M"
  note d = db_ok_distinct[OF db]
  have M': "set ?M \<subseteq> set (rows tx)" using matching_live_rows by blast
  note f = collectFullCluster_facts[OF d M']
  have pos: "id_contact p \<noteq> 0" using db_ok_pos[OF db p(1)] by simp
  have ne: "?M \<noteq> []" using some by auto
  obtain c0 where c0: "c0 \<in> set ?M"
      "c0 = p \<or> (linkPrecedence c0 = secondary \<and> linkedId c0 = Some (id_contact p))"
    using some by blast
  have inPI: "id_contact p \<in> primaryIds_of ?M"
    using c0 in_primaryIds_primary[of c0 ?M] p(2)
      in_primaryIds_secondary[of c0 ?M "id_contact p"] pos
    by auto
  have "{c \<in> set ?C. linkPrecedence c = primary} = {p}"
  proof
    show "{c \<in> set ?C. linkPrecedence c = primary} \<subseteq> {p}"
    proof
      fix c assume "c \<in> {c \<in> set ?C. linkPrecedence c = primary}"
      then have c: "c \<in> set ?C" "linkPrecedence c = primary" by auto
      have cr: "c \<in> set (rows tx)" "live c"
        using cluster_live_rows[OF d matching_live_rows] c(1) by auto
      have "linkedId c = None"
        using primaries_unlinkedD[OF pu cr(1) c(2)] .
      then consider "c \<in> set ?M" | "id_contact c \<in> primaryIds_of ?M"
        using c(1) unfolding f(1) by auto
      then have "c = p"
      proof cases
        case 1
        then show ?thesis using al1 c(2) by blast
      next
        case 2
        then show ?thesis
        proof (cases rule: primaryIds_cases)
          case (prim c')
          then have "c' = p" using al1 by blast
          then show ?thesis using distinct_id_eq[OF d cr(1) p(1)] prim(3) by simp
        next
          case (sec c')
          then show ?thesis using al2 cr c(2) by blast
        qed
      qed
      then show "c \<in> {p}" by simp
    qed
    show "{p} \<subseteq> {c \<in> set ?C. linkPrecedence c = primary}"
      using p inPI unfolding f(1) by auto
  qed
  then have "set (sort_key createdAt (filter (\<lambda>c. linkPrecedence c = primary) ?C)) = {p}"
    by simp
  moreover have "distinct (sort_key createdAt (filter (\<lambda>c. linkPrecedence c = primary) ?C))"
    using f(2) by (simp add: distinct_map)
  ultimately have s: "sort_key createdAt (filter (\<lambda>c. linkPrecedence c = primary) ?C) = [p]"
    by (rule singleton_list)
  have m: "merged tx p [] = tx" by (simp add: merged_def demote_fn_empty_fun)
  show ?thesis
    unfolding identify_closed[OF d ne] s
    using combo by (simp add: m createSecondaryIfNeeded_eq)
qed

lemma identify_again:
  assumes wf: "wf_store tx" and sup: "truthy em \<or> truthy ph"
    and i: "identify tx now em ph = Inr (r, tx1)"
  shows "identify tx1 now' em ph = Inr (r, tx1)
         \<and> length (rows tx1) \<le> Suc (length (rows tx))"
proof -
  have db: "db_ok tx" and pu: "primaries_unlinked tx" and st: "star tx"
    using wf by (simp_all add: wf_store_def)
  note wf1 = identify_wf_store[OF wf i]
  have db1: "db_ok tx1" and pu1: "primaries_unlinked tx1"
    using wf1 by (simp_all add: wf_store_def)
  note d = db_ok_distinct[OF db]
  note d1 = db_ok_distinct[OF db1]
  from d i show ?thesis
  proof (cases rule: identify_Inr_cases)
    case no_match
    let ?N = "new_primary tx now em ph"
    have N: "?N \<in> set (rows tx1)" "linkPrecedence ?N = primary" "live ?N"
      "id_contact ?N = nextId tx" "email ?N = em" "phoneNumber ?N = ph"
      "linkedId ?N = None"
      by (simp_all add: no_match(2) new_primary_def live_def)
    have old: "c \<notin> set (findMatchingContacts tx1 em ph)" if "c \<in> set (rows tx)" for c
    proof
      assume "c \<in> set (findMatchingContacts tx1 em ph)"
      then have "c \<in> set (findMatchingContacts tx em ph)"
        using that by (auto simp: set_findMatchingContacts)
      then show False using no_match(1) by simp
    qed
    have only: "c = ?N" if "c \<in> set (findMatchingContacts tx1 em ph)" for c
    proof -
      have "c \<in> set (rows tx1)" using that matching_live_rows by blast
      then have "c = ?N \<or> c \<in> set (rows tx)" by (auto simp: no_match(2))
      then show ?thesis using old that by blast
    qed
    have mN: "?N \<in> set (findMatchingContacts tx1 em ph)"
      using N sup by (auto simp: set_findMatchingContacts)
    then have some: "\<exists>c \<in> set (findMatchingContacts tx1 em ph).
                 c = ?N \<or> (linkPrecedence c = secondary \<and> linkedId c = Some (id_contact ?N))"
      by blast
    have al1: "\<forall>c \<in> set (findMatchingContacts tx1 em ph). linkPrecedence c = primary \<longrightarrow> c = ?N"
      using only by blast
    have al2: "\<forall>c \<in> set (findMatchingContacts tx1 em ph). \<forall>q \<in> set (rows tx1).
                 linkedId c = Some (id_contact q) \<and> linkPrecedence q = primary \<and> live q
                 \<longrightarrow> q = ?N"
      using only N(7) by force
    have combo: "comboExists (?N # findContactsByPrimaryId tx1 (id_contact ?N)) em ph"
      using N(5,6) by (simp add: comboExists_def)
    have e: "findContactsByPrimaryId tx1 (id_contact ?N) = []"
      unfolding N(4) no_match(2) by (rule fresh_no_secondaries[OF db pu st])
    have "identify tx1 now' em ph = Inr (r, tx1)"
      using identify_stable[OF db1 pu1 N(1-3) some al1 al2 combo, of now'] e no_match(3)
      by simp
    then show ?thesis by (simp add: no_match(2))
  next
    case (match p newer)
    let ?M = "findMatchingContacts tx em ph"
    let ?C = "collectFullCluster tx ?M"
    let ?D = "id_contact ` set newer"
    let ?f = "demote_fn (id_contact p) ?D"
    let ?m = "merged tx p newer"
    let ?N = "new_secondary ?m now p em ph"
    have M': "set ?M \<subseteq> set (rows tx)" using matching_live_rows by blast
    note cf = collectFullCluster_facts(1)[OF d M']
    note f = resolved_facts[OF d matching_live_rows match(2)]
    have same: "?f p = p"
      using merged_primary_same[OF pu f(2) f(4) f(6)] .
    have rows1: "rows tx1 = (if comboExists (p # findContactsByPrimaryId ?m (id_contact p)) em ph
                             then rows ?m else rows ?m @ [?N])"
      unfolding match(3) by (rule rows_createSecondaryIfNeeded)
    have pm: "p \<in> set (rows ?m)"
      using merged_row[OF f(2), of p newer] same by simp
    then have p1: "p \<in> set (rows tx1)" by (simp add: rows1)
    have N: "linkedId ?N = Some (id_contact p)" "linkPrecedence ?N = secondary" "live ?N"
      "email ?N = em" "phoneNumber ?N = ph"
      by (simp_all add: new_secondary_def live_def)
    have sub: "set (findMatchingContacts ?m em ph) \<subseteq> set (findMatchingContacts tx1 em ph)"
      by (auto simp: set_findMatchingContacts rows1)
    have matched1: "c = ?N \<or> (\<exists>c0 \<in> set ?M. c = ?f c0)"
      if "c \<in> set (findMatchingContacts tx1 em ph)" for c
    proof -
      have "c = ?N \<or> c \<in> set (findMatchingContacts ?m em ph)"
        using that by (auto simp: set_findMatchingContacts rows1 split: if_splits)
      then show ?thesis unfolding set_matching_merged by blast
    qed
    have prim_is_p: "c = p" if "c \<in> set ?C" "linkPrecedence c = primary" "id_contact c \<notin> ?D"
      for c
    proof -
      have "c \<in> set (p # newer)" using that(1,2) f(1) by simp
      then show ?thesis using that(3) by auto
    qed
    have sec_not_D: "id_contact c \<notin> ?D"
      if c: "c \<in> set (rows tx)" "linkPrecedence c = secondary" for c
    proof
      assume "id_contact c \<in> ?D"
      then obtain n where n: "n \<in> set newer" "id_contact n = id_contact c" by auto
      then have n': "n \<in> set (rows tx)" "linkPrecedence n = primary" using f(5) by auto
      then have "n = c" using distinct_id_eq[OF d _ c(1)] n(2) by blast
      then show False using c(2) n'(2) by simp
    qed
    have some: "\<exists>c \<in> set (findMatchingContacts tx1 em ph).
                 c = p \<or> (linkPrecedence c = secondary \<and> linkedId c = Some (id_contact p))"
    proof -
      have "p \<in> set ?C" using f(1) by auto
      then consider "p \<in> set ?M" | "id_contact p \<in> primaryIds_of ?M"
        using primaries_unlinkedD[OF pu f(2) f(4)] unfolding cf by auto
      then obtain c0 where c0: "c0 \<in> set ?M"
          "c0 = p \<or> (linkPrecedence c0 = secondary \<and> linkedId c0 = Some (id_contact p))"
      proof cases
        case 1
        then show ?thesis using that by blast
      next
        case 2
        then show ?thesis
        proof (cases rule: primaryIds_cases)
          case (prim c)
          then have "c = p" using distinct_id_eq[OF d _ f(2)] M' by auto
          then show ?thesis using prim(1) that by blast
        next
          case (sec c)
          then show ?thesis using that by blast
        qed
      qed
      have in1: "?f c0 \<in> set (findMatchingContacts tx1 em ph)"
        using c0(1) sub set_matching_merged[of tx p newer em ph] by blast
      from c0(2) show ?thesis
      proof
        assume "c0 = p"
        then show ?thesis using in1 same by auto
      next
        assume a: "linkPrecedence c0 = secondary \<and> linkedId c0 = Some (id_contact p)"
        have "c0 \<in> set (rows tx)" using c0(1) M' by blast
        then have "id_contact c0 \<notin> ?D" using sec_not_D a by blast
        moreover have "\<not> (\<exists>n \<in> ?D. linkedId c0 = Some n)" using a f(6) by auto
        ultimately have "?f c0 = c0" by (simp add: demote_fn_def)
        then show ?thesis using in1 a by auto
      qed
    qed
    have al1: "\<forall>c \<in> set (findMatchingContacts tx1 em ph). linkPrecedence c = primary \<longrightarrow> c = p"
    proof (intro ballI impI)
      fix c assume c: "c \<in> set (findMatchingContacts tx1 em ph)" "linkPrecedence c = primary"
      then obtain c0 where c0: "c0 \<in> set ?M" "c = ?f c0"
        using matched1[OF c(1)] N(2) by auto
      have "linkPrecedence c0 = primary \<and> id_contact c0 \<notin> ?D"
        using c(2) unfolding c0(2) by (auto simp: demote_fn_def split: if_splits)
      moreover have "c0 \<in> set ?C" using c0(1) unfolding cf by simp
      ultimately have "c0 = p" using prim_is_p by blast
      then show "c = p" using c0(2) same by simp
    qed
    have al2: "\<forall>c \<in> set (findMatchingContacts tx1 em ph). \<forall>q \<in> set (rows tx1).
                 linkedId c = Some (id_contact q) \<and> linkPrecedence q = primary \<and> live q
                 \<longrightarrow> q = p"
    proof (intro ballI impI)
      fix c q assume c: "c \<in> set (findMatchingContacts tx1 em ph)"
        and q: "q \<in> set (rows tx1)"
        and a: "linkedId c = Some (id_contact q) \<and> linkPrecedence q = primary \<and> live q"
      have "q \<in> set (rows ?m)" using q a N(2) by (auto simp: rows1 split: if_splits)
      then obtain q0 where q0: "q0 \<in> set (rows tx)" "q = ?f q0"
        by (auto simp: merged_def)
      have q0p: "linkPrecedence q0 = primary" "id_contact q0 \<notin> ?D"
        using a unfolding q0(2) by (auto simp: demote_fn_def split: if_splits)
      have q0l: "live q0" using a unfolding q0(2) by simp
      have qq: "q = q0" unfolding q0(2) using merged_primary_same[OF pu q0(1) q0p] .
      have idp: "q0 = p" if "id_contact q0 = id_contact p"
        using distinct_id_eq[OF d q0(1) f(2) that] .
      from matched1[OF c] show "q = p"
      proof
        assume "c = ?N"
        then have "linkedId ?N = Some (id_contact q0)" using a qq by simp
        then have "id_contact q0 = id_contact p" unfolding N(1) by simp
        from idp[OF this] qq show ?thesis by simp
      next
        assume "\<exists>c0 \<in> set ?M. c = ?f c0"
        then obtain c0 where c0: "c0 \<in> set ?M" "c = ?f c0" by blast
        have c0r: "c0 \<in> set (rows tx)" using c0(1) M' by blast
        show ?thesis
        proof (cases "?f c0 = c0")
          case False
          then have "linkedId (?f c0) = Some (id_contact p)"
            by (auto simp: demote_fn_def split: if_splits)
          moreover have "linkedId (?f c0) = Some (id_contact q0)"
            using a qq unfolding c0(2) by simp
          ultimately have "id_contact q0 = id_contact p" by simp
          from idp[OF this] qq show ?thesis by simp
        next
          case True
          have "linkedId (?f c0) = Some (id_contact q0)"
            using a qq unfolding c0(2) by simp
          then have l: "linkedId c0 = Some (id_contact q0)" unfolding True .
          then have "linkPrecedence c0 = secondary"
            using primaries_unlinkedD[OF pu c0r] by (cases "linkPrecedence c0") auto
          moreover have "id_contact q0 \<noteq> 0" using db_ok_pos[OF db q0(1)] by simp
          ultimately have "id_contact q0 \<in> primaryIds_of ?M"
            using in_primaryIds_secondary[OF c0(1) _ l] by blast
          then have "q0 \<in> set ?C" using q0(1) q0l unfolding cf by auto
          then show ?thesis using prim_is_p q0p qq by blast
        qed
      qed
    qed
    have combo: "comboExists (p # findContactsByPrimaryId tx1 (id_contact p)) em ph"
    proof (cases "comboExists (p # findContactsByPrimaryId ?m (id_contact p)) em ph")
      case True
      then have "tx1 = ?m" unfolding match(3) by (simp add: createSecondaryIfNeeded_eq)
      then show ?thesis using True by simp
    next
      case False
      then have "?N \<in> set (findContactsByPrimaryId tx1 (id_contact p))"
        using N by (simp add: rows1)
      then show ?thesis using N(4,5) unfolding comboExists_iff by auto
    qed
    have "identify tx1 now' em ph = Inr (r, tx1)"
      using identify_stable[OF db1 pu1 p1 f(4) f(3) some al1 al2 combo, of now'] match(4)
      by simp
    moreover have "length (rows tx1) \<le> Suc (length (rows tx))"
      by (simp add: rows1 merged_def)
    ultimately show ?thesis by simp
  qed
qed

section \<open>The claims\<close>

text \<open>
  C7. When at least one field is supplied and no contact that is not deleted has the
  supplied email or the supplied phone, \<open>identify\<close> appends exactly one row to the
  store: a primary with no \<open>linkedId\<close> that carries the supplied email and phone. The
  response names the new contact as \<open>primaryContactId\<close> and its
  \<open>secondaryContactIds\<close> are empty.
\<close>

theorem identify_no_match_creates_primary:
  assumes "truthy em \<or> truthy ph"
    and "\<forall>c \<in> set (rows tx). live c \<longrightarrow>
           \<not> (truthy em \<and> email c = em) \<and> \<not> (truthy ph \<and> phoneNumber c = ph)"
  shows "identify tx now em ph =
           Inr (\<lparr> primaryContactId = nextId tx,
                  emails = (if truthy em then [the em] else []),
                  phoneNumbers = (if truthy ph then [the ph] else []),
                  secondaryContactIds = [] \<rparr>,
                tx\<lparr> rows := rows tx @
                       [\<lparr> id_contact = nextId tx, email = em, phoneNumber = ph,
                          linkedId = None, linkPrecedence = primary,
                          createdAt = now, deletedAt = None \<rparr>],
                    nextId := Suc (nextId tx) \<rparr>)"
proof -
  have "filter (\<lambda>c. ((truthy em \<and> email c = em) \<or> (truthy ph \<and> phoneNumber c = ph)) \<and> live c)
          (rows tx) = []"
    using assms(2) by (auto simp: filter_empty_conv)
  then have "findMatchingContacts tx em ph = []"
    by (simp add: findMatchingContacts_eq)
  then show ?thesis
    by (rule identify_no_match_eq)
qed

theorem identify_no_match_creates_primary_witness:
  "identify store_empty 5 (Some ''a@x.com'') (Some ''111'') =
     Inr (\<lparr> primaryContactId = 1, emails = [''a@x.com''], phoneNumbers = [''111''],
            secondaryContactIds = [] \<rparr>,
          \<lparr> rows = [\<lparr> id_contact = 1, email = Some ''a@x.com'', phoneNumber = Some ''111'',
                      linkedId = None, linkPrecedence = primary, createdAt = 5,
                      deletedAt = None \<rparr>],
            nextId = 2 \<rparr>)"
  using identify_no_match_creates_primary
          [of "Some ''a@x.com''" "Some ''111''" store_empty 5]
  by (simp add: store_empty_def truthy_def)

text \<open>
  C8. A request whose email and phoneNumber are both absent or empty is answered with
  status 400 and the message that at least one identifier is required. The answer is
  the same for every store and the store is returned as it was: the rejected branch
  calls no repository function. (The repository's own guard returns the empty list
  for such a pair as well.)
\<close>

theorem controller_rejects_missing_identifiers:
  assumes "\<not> truthy (r_email req)" and "\<not> truthy (r_phoneNumber req)"
  shows "controller_identify tx now req =
           (\<lparr> status = 400,
              json = Err ''At least one of email or phoneNumber must be provided'' \<rparr>, tx)
         \<and> findMatchingContacts tx (r_email req) (r_phoneNumber req) = []"
  using assms by (simp add: controller_identify_def errorHandler_def findMatchingContacts_eq)

theorem controller_rejects_missing_identifiers_witness:
  "controller_identify store_two_clusters 99 \<lparr> r_email = Some '''', r_phoneNumber = None \<rparr> =
     (\<lparr> status = 400,
        json = Err ''At least one of email or phoneNumber must be provided'' \<rparr>,
      store_two_clusters)
   \<and> findMatchingContacts store_two_clusters (Some '''') None = []"
  using controller_rejects_missing_identifiers
          [of "\<lparr> r_email = Some '''', r_phoneNumber = None \<rparr>" store_two_clusters 99]
  by (simp add: truthy_def)

text \<open>
  C10. An email of white space only, with no phoneNumber, passes the validation of the
  controller (it is truthy), is trimmed to the empty string and handed to the service as
  \<open>null\<close>, together with a \<open>null\<close> phoneNumber. \<open>findMatchingContacts\<close> returns
  the empty list for that pair, and \<open>identify\<close> creates a primary whose email and
  phoneNumber are both \<open>null\<close>; the answer has status 200.
\<close>

theorem controller_blank_email_creates_empty_primary:
  assumes "s \<noteq> []" and "list_all is_space s"
  shows "truthy (Some s)
         \<and> or_null (Some (toLowerCase (trim s))) = None
         \<and> or_null None = None
         \<and> findMatchingContacts tx None None = []
         \<and> controller_identify tx now \<lparr> r_email = Some s, r_phoneNumber = None \<rparr> =
             (\<lparr> status = 200,
                json = Ok \<lparr> primaryContactId = nextId tx, emails = [], phoneNumbers = [],
                            secondaryContactIds = [] \<rparr> \<rparr>,
              tx\<lparr> rows := rows tx @
                     [\<lparr> id_contact = nextId tx, email = None, phoneNumber = None,
                        linkedId = None, linkPrecedence = primary,
                        createdAt = now, deletedAt = None \<rparr>],
                  nextId := Suc (nextId tx) \<rparr>)"
proof -
  have t: "trim s = []" using assms(2) by (rule trim_spaces)
  have n: "\<not> truthy None" by (simp add: truthy_def)
  have m: "findMatchingContacts tx None None = []"
    by (simp add: findMatchingContacts_eq n)
  have i: "identify tx now None None =
             Inr (\<lparr> primaryContactId = nextId tx, emails = [], phoneNumbers = [],
                    secondaryContactIds = [] \<rparr>,
                  tx\<lparr> rows := rows tx @
                         [\<lparr> id_contact = nextId tx, email = None, phoneNumber = None,
                            linkedId = None, linkPrecedence = primary,
                            createdAt = now, deletedAt = None \<rparr>],
                      nextId := Suc (nextId tx) \<rparr>)"
    using identify_no_match_eq[OF m, of now] by (simp add: n)
  have o: "or_null (Some (toLowerCase (trim s))) = None"
    by (simp add: t or_null_def toLowerCase_def truthy_def)
  have tr: "truthy (Some s)" using assms(1) by (simp add: truthy_def)
  show ?thesis
    using tr o m i n by (simp add: controller_identify_def or_null_def)
qed

theorem controller_blank_email_creates_empty_primary_witness:
  "controller_identify store_empty 7 \<lparr> r_email = Some ''  '', r_phoneNumber = None \<rparr> =
     (\<lparr> status = 200,
        json = Ok \<lparr> primaryContactId = 1, emails = [], phoneNumbers = [],
                    secondaryContactIds = [] \<rparr> \<rparr>,
      \<lparr> rows = [\<lparr> id_contact = 1, email = None, phoneNumber = None,
                  linkedId = None, linkPrecedence = primary,
                  createdAt = 7, deletedAt = None \<rparr>],
        nextId = 2 \<rparr>)"
  using controller_blank_email_creates_empty_primary [of "''  ''" store_empty 7]
  by (simp add: store_empty_def is_space_def)

text \<open>
  C1. The spec creates a secondary only when the supplied email or the supplied phone
  is not yet present in the cluster; when both already occur, on different members,
  nothing is to be created. \<open>createSecondaryIfNeeded\<close> computes exactly this test as
  \<open>hasNewInfo\<close>, but then creates when \<open>hasNewInfo\<close> holds or the combination is
  absent and a field was supplied; after the early return for an existing combination the
  second disjunct is always true, so \<open>hasNewInfo\<close> decides nothing. On the cluster of
  \<open>contact_a\<close> (a@x.com, 111) and \<open>contact_e\<close> (e@x.com, 555) the request
  (a@x.com, 555) carries no new information, \<open>hasNewInfo\<close> is false, and the call
  creates contact 3 all the same.
\<close>

theorem both_present_still_creates:
  "list_ex (\<lambda>c. email c = Some ''a@x.com'') (rows store_one_cluster)
   \<and> list_ex (\<lambda>c. phoneNumber c = Some ''555'') (rows store_one_cluster)
   \<and> \<not> hasNewInfo [contact_a, contact_e] (Some ''a@x.com'') (Some ''555'')
   \<and> identify store_one_cluster 100 (Some ''a@x.com'') (Some ''555'') =
       Inr (\<lparr> primaryContactId = 1, emails = [''a@x.com'', ''e@x.com''],
              phoneNumbers = [''111'', ''555''], secondaryContactIds = [2, 3] \<rparr>,
            \<lparr> rows = [contact_a, contact_e,
                      \<lparr> id_contact = 3, email = Some ''a@x.com'', phoneNumber = Some ''555'',
                        linkedId = Some 1, linkPrecedence = secondary, createdAt = 100,
                        deletedAt = None \<rparr>],
              nextId = 4 \<rparr>)"
  by code_simp




text \<open>
  C3. In a well-formed store, with at least one field supplied: if \<open>identify\<close>
  completes with response \<open>r\<close> and store \<open>tx1\<close>, then a second call with the same pair
  on \<open>tx1\<close> returns the same response and leaves \<open>tx1\<close> as it is, so it creates no
  record, and the first call has added at most one row. If the first call fails (its
  transaction is rolled back, so the store is still \<open>tx\<close>) the second call fails in the
  same way. When every secondary that is not deleted points to a primary that is not
  deleted, the first call does complete.
\<close>

theorem identify_idempotent:
  assumes wf: "wf_store tx" and sup: "truthy em \<or> truthy ph"
  shows "(\<forall>r tx1. identify tx now em ph = Inr (r, tx1) \<longrightarrow>
            identify tx1 now' em ph = Inr (r, tx1)
            \<and> length (rows tx1) \<le> Suc (length (rows tx)))
         \<and> (\<forall>e. identify tx now em ph = Inl e \<longrightarrow> identify tx now' em ph = Inl e)
         \<and> (star_live tx \<longrightarrow> (\<exists>r tx1. identify tx now em ph = Inr (r, tx1)))"
proof -
  have db: "db_ok tx" using wf by (simp add: wf_store_def)
  have a: "\<forall>r tx1. identify tx now em ph = Inr (r, tx1) \<longrightarrow>
            identify tx1 now' em ph = Inr (r, tx1)
            \<and> length (rows tx1) \<le> Suc (length (rows tx))"
    using identify_again[OF wf sup] by blast
  have b: "\<forall>e. identify tx now em ph = Inl e \<longrightarrow> identify tx now' em ph = Inl e"
    using identify_Inl_now[OF db] by blast
  have c: "star_live tx \<longrightarrow> (\<exists>r tx1. identify tx now em ph = Inr (r, tx1))"
    using identify_total[OF db, of now em ph] unfolding star_live_def by blast
  from a b c show ?thesis by (intro conjI)
qed

theorem identify_idempotent_witness:
  "\<exists>r tx1. identify store_two_clusters 100 (Some ''a@x.com'') (Some ''222'') = Inr (r, tx1)
      \<and> identify tx1 200 (Some ''a@x.com'') (Some ''222'') = Inr (r, tx1)
      \<and> length (rows tx1) \<le> Suc (length (rows store_two_clusters))"
proof -
  have wf: "wf_store store_two_clusters" by code_simp
  have sup: "truthy (Some ''a@x.com'') \<or> truthy (Some ''222'')" by code_simp
  have sl: "star_live store_two_clusters" by code_simp
  note t = identify_idempotent[OF wf sup, of 100 200]
  from conjunct2[OF conjunct2[OF t]] sl obtain r tx1 where
    i: "identify store_two_clusters 100 (Some ''a@x.com'') (Some ''222'') = Inr (r, tx1)"
    by (elim impE exE)
  from conjunct1[OF t] i have
    j: "identify tx1 200 (Some ''a@x.com'') (Some ''222'') = Inr (r, tx1)
        \<and> length (rows tx1) \<le> Suc (length (rows store_two_clusters))"
    by (elim allE impE)
  show ?thesis
    by (rule exI[of _ r], rule exI[of _ tx1]) (rule conjI[OF i j])
qed

text \<open>
  C4. After every completed \<open>identify\<close> call on a well-formed store, the store is
  well-formed again and the cluster of the contact that the response names (that contact
  and every row linked to it) holds exactly one primary. When, in addition, every
  secondary that is not deleted points to a primary that is not deleted, this holds again
  after the call and every contact of the collected cluster lies in that one cluster: the
  clusters the call touched have become one cluster with one primary.
\<close>

theorem identify_one_primary:
  assumes wf: "wf_store tx" and i: "identify tx now em ph = Inr (r, tx')"
  shows "wf_store tx'
         \<and> length (filter (\<lambda>c. linkPrecedence c = primary)
                     (cluster_of tx' (primaryContactId r))) = 1
         \<and> (star_live tx \<longrightarrow>
              star_live tx'
              \<and> (\<forall>c \<in> set (collectFullCluster tx (findMatchingContacts tx em ph)).
                    id_contact c \<in> id_contact ` set (cluster_of tx' (primaryContactId r))))"
proof -
  have db: "db_ok tx" and pu: "primaries_unlinked tx"
    using wf by (simp_all add: wf_store_def)
  note wf1 = identify_wf_store[OF wf i]
  have db1: "db_ok tx'" and pu1: "primaries_unlinked tx'"
    using wf1 by (simp_all add: wf_store_def)
  note d = db_ok_distinct[OF db]
  from d i have
    "length (filter (\<lambda>c. linkPrecedence c = primary) (cluster_of tx' (primaryContactId r))) = 1
     \<and> (star_live tx \<longrightarrow>
          (\<forall>c \<in> set (collectFullCluster tx (findMatchingContacts tx em ph)).
               id_contact c \<in> id_contact ` set (cluster_of tx' (primaryContactId r))))"
  proof (cases rule: identify_Inr_cases)
    case no_match
    let ?N = "new_primary tx now em ph"
    have N: "?N \<in> set (rows tx')" "linkPrecedence ?N = primary"
      by (simp_all add: no_match(2) new_primary_def)
    have "collectFullCluster tx (findMatchingContacts tx em ph) = []"
      unfolding no_match(1) by (simp add: collectFullCluster_def)
    then show ?thesis
      using one_primary[OF db1 pu1 N] by (simp add: no_match(3) primaryContactId_buildResponse)
  next
    case (match p newer)
    let ?D = "id_contact ` set newer"
    let ?m = "merged tx p newer"
    note f = resolved_facts[OF d matching_live_rows match(2)]
    have same: "demote_fn (id_contact p) ?D p = p"
      using merged_primary_same[OF pu f(2) f(4) f(6)] .
    have sub: "set (rows ?m) \<subseteq> set (rows tx')"
      unfolding match(3) by (auto simp: rows_createSecondaryIfNeeded)
    have p1: "p \<in> set (rows tx')"
      using merged_row[OF f(2), of p newer] same sub by auto
    have "id_contact c \<in> id_contact ` set (cluster_of tx' (id_contact p))"
      if sl: "star_live tx"
        and c: "c \<in> set (collectFullCluster tx (findMatchingContacts tx em ph))" for c
    proof -
      let ?c = "demote_fn (id_contact p) ?D c"
      have "c \<in> set (rows tx)"
        using cluster_live_rows[OF d matching_live_rows] c by blast
      then have "?c \<in> set (rows tx')" using merged_row[of c tx p newer] sub by blast
      moreover have "id_contact ?c = id_contact p \<or> linkedId ?c = Some (id_contact p)"
      proof -
        from merged_touched[OF db pu sl matching_live_rows match(2) c]
        consider "?c = p" | "linkedId ?c = Some (id_contact p)" by blast
        then show ?thesis
        proof cases
          case 1
          then show ?thesis by (simp only:) simp
        next
          case 2
          then show ?thesis by blast
        qed
      qed
      ultimately have "?c \<in> set (cluster_of tx' (id_contact p))"
        by (simp add: cluster_of_def)
      then show ?thesis by (metis demote_fn_fields(1) imageI)
    qed
    then show ?thesis
      using one_primary[OF db1 pu1 p1 f(4)] by (simp add: match(4) primaryContactId_buildResponse)
  qed
  then show ?thesis using wf1 identify_star_live[OF db _ i] by blast
qed

theorem identify_one_primary_witness:
  "\<exists>r tx'. identify store_two_clusters 100 (Some ''c@x.com'') (Some ''111'') = Inr (r, tx')
      \<and> wf_store tx'
      \<and> length (filter (\<lambda>c. linkPrecedence c = primary)
                  (cluster_of tx' (primaryContactId r))) = 1
      \<and> star_live tx'
      \<and> list_all (\<lambda>c. id_contact c \<in> id_contact ` set (cluster_of tx' (primaryContactId r)))
          (collectFullCluster store_two_clusters
             (findMatchingContacts store_two_clusters (Some ''c@x.com'') (Some ''111'')))"
proof -
  have wf: "wf_store store_two_clusters" by code_simp
  have db: "db_ok store_two_clusters" by code_simp
  have sl: "star_live store_two_clusters" by code_simp
  obtain r tx' where
    i: "identify store_two_clusters 100 (Some ''c@x.com'') (Some ''111'') = Inr (r, tx')"
    using identify_total[OF db sl[unfolded star_live_def]] by blast
  show ?thesis
    using identify_one_primary[OF wf i] sl i by (auto simp: list_all_iff)
qed

text \<open>
  C5. As stated the claim fails: a merge re-points only the secondaries that are not
  deleted, so a soft-deleted secondary of a demoted primary is left pointing to a contact
  that is now a secondary. What holds: in a store with unique ids, if every secondary
  that is not deleted has a \<open>linkedId\<close> that refers to a primary, then the same is true
  after any sequence of \<open>identify\<close> calls (a failed call is rolled back): among the rows
  that are not deleted no secondary points to a secondary.
\<close>

theorem star_preserved:
  assumes "db_ok tx" and "star tx"
  shows "db_ok (run_calls tx calls) \<and> star (run_calls tx calls)"
  using assms
proof (induction calls arbitrary: tx)
  case Nil
  then show ?case by simp
next
  case (Cons call calls)
  obtain now em ph where call: "call = (now, em, ph)" by (cases call) auto
  show ?case
  proof (cases "identify tx now em ph")
    case (Inl e)
    then show ?thesis using Cons call by simp
  next
    case (Inr res)
    obtain r tx' where res: "res = (r, tx')" by (cases res) auto
    have "db_ok tx'" using identify_db_ok[OF Cons.prems(1)] Inr res by simp
    moreover have "star tx'"
      using identify_star_on[of tx "\<lambda>p. True" now em ph r tx'] Cons.prems Inr res
      by (simp add: star_def)
    ultimately show ?thesis using Cons.IH[of tx'] Inr res call by simp
  qed
qed

theorem star_preserved_witness:
  "db_ok (run_calls store_with_deleted
            [(100, Some ''b@x.com'', Some ''111''), (200, Some ''z@x.com'', None)])
   \<and> star (run_calls store_with_deleted
            [(100, Some ''b@x.com'', Some ''111''), (200, Some ''z@x.com'', None)])"
proof (rule star_preserved)
  show "db_ok store_with_deleted" by code_simp
  show "star store_with_deleted" by code_simp
qed

theorem deleted_secondary_points_to_secondary:
  "star_all store_with_deleted
   \<and> identify store_with_deleted 100 (Some ''b@x.com'') (Some ''111'') =
       Inr (\<lparr> primaryContactId = 1, emails = [''a@x.com'', ''b@x.com'', ''c@x.com''],
              phoneNumbers = [''111'', ''222''], secondaryContactIds = [2, 3, 5] \<rparr>,
            \<lparr> rows = [contact_a,
                      contact_b\<lparr> linkedId := Some 1, linkPrecedence := secondary \<rparr>,
                      contact_c\<lparr> linkedId := Some 1 \<rparr>,
                      contact_d,
                      \<lparr> id_contact = 5, email = Some ''b@x.com'', phoneNumber = Some ''111'',
                        linkedId = Some 1, linkPrecedence = secondary, createdAt = 100,
                        deletedAt = None \<rparr>],
              nextId = 6 \<rparr>)
   \<and> \<not> star_all
         \<lparr> rows = [contact_a,
                   contact_b\<lparr> linkedId := Some 1, linkPrecedence := secondary \<rparr>,
                   contact_c\<lparr> linkedId := Some 1 \<rparr>,
                   contact_d,
                   \<lparr> id_contact = 5, email = Some ''b@x.com'', phoneNumber = Some ''111'',
                     linkedId = Some 1, linkPrecedence = secondary, createdAt = 100,
                     deletedAt = None \<rparr>],
           nextId = 6 \<rparr>"
  by code_simp

text \<open>
  C6. For every completed \<open>identify\<close> call on a well-formed store the response names a
  primary \<open>p\<close> of the resulting store, and with \<open>secs\<close> the rows that are not deleted
  and are linked to \<open>p\<close>, in \<open>createdAt\<close> order (the non-primary members of the cluster
  after the merge): \<open>emails\<close> is the list of the emails that are present in \<open>p\<close> and
  then \<open>secs\<close>, each kept where it is seen first, likewise \<open>phoneNumbers\<close>; both lists
  have no duplicates; the email and the phone of \<open>p\<close>, when present, come first; and
  \<open>secondaryContactIds\<close> lists the ids of \<open>secs\<close> in that order. (Present is the
  program's truthiness: not \<open>null\<close> and not the empty string, which the callers of
  the service replace by \<open>null\<close>.)
\<close>

theorem response_assembly:
  assumes wf: "wf_store tx" and i: "identify tx now em ph = Inr (r, tx')"
  shows "\<exists>p \<in> set (rows tx').
           linkPrecedence p = primary \<and> live p \<and> primaryContactId r = id_contact p
           \<and> (let secs = sort_key createdAt
                           (filter (\<lambda>c. linkedId c = Some (id_contact p) \<and> live c) (rows tx'))
              in emails r = first_seen (present_values (map email (p # secs)))
               \<and> phoneNumbers r = first_seen (present_values (map phoneNumber (p # secs)))
               \<and> secondaryContactIds r = map id_contact secs)
           \<and> distinct (emails r) \<and> distinct (phoneNumbers r)
           \<and> (if truthy (email p) then take 1 (emails r) = [the (email p)] else True)
           \<and> (if truthy (phoneNumber p) then take 1 (phoneNumbers r) = [the (phoneNumber p)]
               else True)"
proof -
  have db: "db_ok tx" and pu: "primaries_unlinked tx" and st: "star tx"
    using wf by (simp_all add: wf_store_def)
  note d = db_ok_distinct[OF db]
  have fc: "findContactsByPrimaryId t q =
              sort_key createdAt (filter (\<lambda>c. linkedId c = Some q \<and> live c) (rows t))" for t q
    by (simp add: findContactsByPrimaryId_def live_def)
  have key: "\<exists>p \<in> set (rows tx'). linkPrecedence p = primary \<and> live p
               \<and> r = buildResponse p (findContactsByPrimaryId tx' (id_contact p))"
    using d i
  proof (cases rule: identify_Inr_cases)
    case no_match
    let ?N = "new_primary tx now em ph"
    have "?N \<in> set (rows tx')" "linkPrecedence ?N = primary" "live ?N"
      "id_contact ?N = nextId tx"
      by (simp_all add: no_match(2) new_primary_def live_def)
    moreover have "findContactsByPrimaryId tx' (nextId tx) = []"
      unfolding no_match(2) by (rule fresh_no_secondaries[OF db pu st])
    ultimately show ?thesis using no_match(3) by (intro bexI[of _ ?N]) simp_all
  next
    case (match p newer)
    note f = resolved_facts[OF d matching_live_rows match(2)]
    have same: "demote_fn (id_contact p) (id_contact ` set newer) p = p"
      using merged_primary_same[OF pu f(2) f(4) f(6)] .
    have sub: "set (rows (merged tx p newer)) \<subseteq> set (rows tx')"
      unfolding match(3) by (auto simp: rows_createSecondaryIfNeeded)
    have "p \<in> set (rows tx')"
      using merged_row[OF f(2), of p newer] same sub by auto
    then show ?thesis using f(3,4) match(4) by (intro bexI[of _ p]) simp_all
  qed
  then obtain p where p: "p \<in> set (rows tx')" "linkPrecedence p = primary" "live p"
      "r = buildResponse p (findContactsByPrimaryId tx' (id_contact p))" by blast
  have hd_e: "truthy v \<Longrightarrow> take 1 (first_seen (present_values (v # vs))) = [the v]" for v vs
    by (simp add: present_values_Cons first_seen_Cons)
  show ?thesis
    using p(2,3) hd_e
    by (intro bexI[OF _ p(1)]) (simp add: p(4) buildResponse_closed fc Let_def)
qed

theorem response_assembly_witness:
  "identify store_two_clusters 100 (Some ''c@x.com'') (Some ''111'') =
     Inr (response_merged, store_merged)
   \<and> (\<exists>p \<in> set (rows store_merged).
         linkPrecedence p = primary \<and> live p \<and> primaryContactId response_merged = id_contact p
         \<and> (let secs = sort_key createdAt
                         (filter (\<lambda>c. linkedId c = Some (id_contact p) \<and> live c)
                            (rows store_merged))
            in emails response_merged = first_seen (present_values (map email (p # secs)))
             \<and> phoneNumbers response_merged
                   = first_seen (present_values (map phoneNumber (p # secs)))
             \<and> secondaryContactIds response_merged = map id_contact secs)
         \<and> distinct (emails response_merged) \<and> distinct (phoneNumbers response_merged)
         \<and> (if truthy (email p) then take 1 (emails response_merged) = [the (email p)]
             else True)
         \<and> (if truthy (phoneNumber p)
             then take 1 (phoneNumbers response_merged) = [the (phoneNumber p)]
             else True))"
proof -
  have wf: "wf_store store_two_clusters" by code_simp
  have i: "identify store_two_clusters 100 (Some ''c@x.com'') (Some ''111'') =
             Inr (response_merged, store_merged)"
    by code_simp
  from i response_assembly[OF wf i] show ?thesis by (rule conjI)
qed

lemma store_orphan_well_formed: "wf_store store_orphan \<and> star_all store_orphan"
  by code_simp

text \<open>
  C9. The spec takes a cluster without a primary to be impossible after a match, and
  \<open>resolvePrimary\<close> is declared to return a contact. The code does not keep to this:
  \<open>collectFullCluster\<close> leaves out a fetched primary that is soft-deleted, so when the
  only matched contact is a secondary of such a primary the collected cluster has no
  primary, \<open>resolvePrimary\<close> returns \<open>undefined\<close>, \<open>refreshCluster\<close> reads
  \<open>primary.id\<close> and throws, and the request is answered with status 500.
  \<open>store_orphan\<close> is such a store; it is well-formed, and every secondary in it points
  to a primary (\<open>store_orphan_well_formed\<close>).
\<close>

theorem orphan_cluster_has_no_primary:
  "findMatchingContacts store_orphan (Some ''g@x.com'') None = [contact_g]
   \<and> collectFullCluster store_orphan [contact_g] = [contact_g]
   \<and> linkPrecedence contact_g = secondary
   \<and> resolvePrimary store_orphan [contact_g] = Inr (None, store_orphan)
   \<and> identify store_orphan 100 (Some ''g@x.com'') None = Inl TypeError
   \<and> controller_identify store_orphan 100 \<lparr> r_email = Some ''g@x.com'', r_phoneNumber = None \<rparr>
       = (\<lparr> status = 500, json = Err ''Internal server error'' \<rparr>, store_orphan)"
  by code_simp

end
